theory Spec2Isabelle
  imports Main "HOL-Library.Word"
begin

unbundle bit_operations_syntax

section \<open>PCMP: an LZSS variant with a 32-byte container header\<close>

text \<open>
  A shallow embedding of \<^verbatim>\<open>pcmp_compressor.go\<close> and \<^verbatim>\<open>pcmp_decompressor.go\<close>.
  Go's \<^verbatim>\<open>byte\<close>, \<^verbatim>\<open>uint16\<close> and \<^verbatim>\<open>uint32\<close> are words of that width. Go's \<^verbatim>\<open>int\<close>
  positions, lengths and counts are \<^typ>\<open>nat\<close>: the only callers pass non-negative values,
  and the one subtraction that can go below zero (\<^verbatim>\<open>windowStart\<close>) is clamped to 0 by the
  source right after, which is what \<^typ>\<open>nat\<close> subtraction does. A function returning
  \<^verbatim>\<open>(value, error)\<close> returns \<open>error + value\<close>; console output is left out.
\<close>

type_synonym byte = "8 word"
type_synonym uint16 = "16 word"
type_synonym uint32 = "32 word"

subsection \<open>Constants and errors\<close>

definition maxWindowSize :: nat where "maxWindowSize = 4096"
definition maxEncodedLength :: nat where "maxEncodedLength = 18"
definition minMatchLength :: nat where "minMatchLength = 3"
definition pcmpHeaderSize :: nat where "pcmpHeaderSize = 0x20"
definition outputBufferSlack :: nat where "outputBufferSlack = 2048"
definition fileAlignment :: nat where "fileAlignment = 2048"
definition pcmpDataOffset :: nat where "pcmpDataOffset = 0x20"

datatype error =
    errBufferTooSmall
  | errFileTooShort
  | errInvalidSignature
  | errStreamEmpty
  | errStreamPrematureEnd
  | errPrematureEndCopy
  | errPrematureEndLiteral

subsection \<open>Library functions of Go used by the program\<close>

text \<open>\<^verbatim>\<open>binary.LittleEndian.PutUint32\<close> and \<^verbatim>\<open>binary.LittleEndian.Uint32\<close>.\<close>

definition PutUint32 :: "uint32 \<Rightarrow> byte list" where
  "PutUint32 v = [ucast v, ucast (drop_bit 8 v), ucast (drop_bit 16 v), ucast (drop_bit 24 v)]"

definition Uint32 :: "byte list \<Rightarrow> uint32" where
  "Uint32 b = ucast (b ! 0) OR push_bit 8 (ucast (b ! 1))
                OR push_bit 16 (ucast (b ! 2)) OR push_bit 24 (ucast (b ! 3))"

text \<open>A slice expression \<^verbatim>\<open>b[lo:hi]\<close> (used where the source has checked the bounds).\<close>

definition slice :: "'a list \<Rightarrow> nat \<Rightarrow> nat \<Rightarrow> 'a list" where
  "slice b lo hi = take (hi - lo) (drop lo b)"

text \<open>\<^verbatim>\<open>copy(dst[lo:], src)\<close> for a source that fits.\<close>

definition copy_into :: "'a list \<Rightarrow> nat \<Rightarrow> 'a list \<Rightarrow> 'a list" where
  "copy_into dst lo src = take lo dst @ src @ drop (lo + length src) dst"

text \<open>
  \<^verbatim>\<open>bytes.LastIndex(s, sep)\<close>: the index of the last instance of \<open>sep\<close> in \<open>s\<close>,
  \<open>None\<close> for Go's \<open>-1\<close>.
\<close>

definition LastIndex :: "byte list \<Rightarrow> byte list \<Rightarrow> nat option" where
  "LastIndex s sep =
     (if length s < length sep then None
      else find (\<lambda>i. take (length sep) (drop i s) = sep) (rev [0..<length s - length sep + 1]))"

subsection \<open>The container header\<close>

definition signature :: "byte list" where
  "signature = [0x50, 0x43, 0x4D, 0x50]"

definition writePCMPHeader :: "uint32 \<Rightarrow> uint32 \<Rightarrow> error + byte list" where
  "writePCMPHeader totalUncompressedSize totalCompressedStreamSize =
     (let header = replicate pcmpHeaderSize (0 :: byte);
          header = copy_into header 0 signature;
          header = foldl (\<lambda>h i. if 0x14 \<le> i \<and> i < 0x1C then h else h[i := 0]) header
                     [4..<pcmpHeaderSize];
          header = copy_into header 0x14 (PutUint32 totalUncompressedSize);
          header = copy_into header 0x18 (PutUint32 totalCompressedStreamSize)
      in Inr header)"

definition readPCMPHeader :: "byte list \<Rightarrow> error + (uint32 \<times> uint32)" where
  "readPCMPHeader buf =
     (if length buf < pcmpDataOffset then Inl errFileTooShort
      else if slice buf 0 4 \<noteq> signature then Inl errInvalidSignature
      else
        let outSize = Uint32 (slice buf 0x14 0x18);
            compSize = Uint32 (slice buf 0x18 0x1C);
            remainingDataInFile = (word_of_nat (length buf - pcmpDataOffset) :: uint32)
        in if compSize = 0 \<or> compSize > remainingDataInFile
           then Inr (outSize, remainingDataInFile)
           else Inr (outSize, compSize))"

subsection \<open>The match finder\<close>

text \<open>
  The loop \<^verbatim>\<open>for l := maxMatchLen; l >= minMatchLength; l--\<close> of \<^verbatim>\<open>findMatch\<close>; a match is
  \<open>Some (offset, length)\<close>.
\<close>

function findMatch_loop ::
  "byte list \<Rightarrow> nat \<Rightarrow> nat \<Rightarrow> byte list \<Rightarrow> nat \<Rightarrow> (nat \<times> nat) option" where
  "findMatch_loop inputData currentInputPos windowStart window l =
     (if l \<ge> minMatchLength then
        (if currentInputPos + l > length inputData
         then findMatch_loop inputData currentInputPos windowStart window (l - 1)
         else
           (case LastIndex window (slice inputData currentInputPos (currentInputPos + l)) of
              Some idxInWindow \<Rightarrow> Some (currentInputPos - (windowStart + idxInWindow), l)
            | None \<Rightarrow> findMatch_loop inputData currentInputPos windowStart window (l - 1)))
      else None)"
  by pat_completeness auto
termination
  by (relation "measure (\<lambda>(inputData, currentInputPos, windowStart, window, l). l)")
     (auto simp: minMatchLength_def)

declare findMatch_loop.simps [simp del]

definition findMatch :: "byte list \<Rightarrow> nat \<Rightarrow> nat \<Rightarrow> nat \<Rightarrow> (nat \<times> nat) option" where
  "findMatch inputData currentInputPos currentWindowSize maxMatchLen0 =
     (if currentInputPos + minMatchLength > length inputData then None
      else
        let maxMatchLen = (if currentInputPos + maxMatchLen0 > length inputData
                           then length inputData - currentInputPos else maxMatchLen0)
        in if maxMatchLen < minMatchLength then None
           else
             let windowStart = currentInputPos - currentWindowSize;
                 window = slice inputData windowStart currentInputPos
             in if length window = 0 then None
                else findMatch_loop inputData currentInputPos windowStart window maxMatchLen)"

subsection \<open>The encoder\<close>

record enc_state =
  inputPos :: nat
  outputPos :: nat
  currentFlag :: byte
  bitCount :: nat
  flagPos :: nat
  outputBuffer :: "byte list"

text \<open>
  The block \<^verbatim>\<open>if bitCount == 8 { ... }\<close>, which the source has once in the literal branch
  and once in the copy branch: the finished control byte is stored at \<open>flagPos\<close> and the
  next output byte is reserved for the following one.
\<close>

definition flushFlag :: "enc_state \<Rightarrow> error + enc_state" where
  "flushFlag st =
     (if bitCount st = 8 then
        (let buf = (outputBuffer st)[flagPos st := currentFlag st] in
         if outputPos st \<ge> length buf then Inl errBufferTooSmall
         else Inr (st\<lparr>currentFlag := 0, bitCount := 0, flagPos := outputPos st,
                       outputBuffer := buf[outputPos st := 0],
                       outputPos := outputPos st + 1\<rparr>))
      else Inr st)"

text \<open>The two bytes of a copy token.\<close>

definition encodedPairVal :: "nat \<Rightarrow> nat \<Rightarrow> uint16" where
  "encodedPairVal matchOffset matchLength =
     word_of_int (push_bit 4 (int matchOffset - 1) OR ((int matchLength - 3) AND 0x0F))"

text \<open>
  The two bounds the loop computes for the match finder at \<open>inputPos\<close>:
  \<^verbatim>\<open>currentWindowSize\<close> and \<^verbatim>\<open>currentMaxMatchLen\<close>.
\<close>

definition currentWindowSize :: "nat \<Rightarrow> nat" where
  "currentWindowSize pos = (if pos > maxWindowSize then maxWindowSize else pos)"

definition currentMaxMatchLen :: "byte list \<Rightarrow> nat \<Rightarrow> nat" where
  "currentMaxMatchLen inputData pos =
     (if length inputData - pos > maxEncodedLength then maxEncodedLength
      else length inputData - pos)"

text \<open>
  One iteration of the loop \<^verbatim>\<open>for inputPos < len(inputData)\<close> of \<^verbatim>\<open>coreCompressV1\<close>,
  without its progress report.
\<close>

definition enc_step :: "byte list \<Rightarrow> enc_state \<Rightarrow> error + enc_state" where
  "enc_step inputData st =
     (if outputPos st \<ge> length (outputBuffer st) then Inl errBufferTooSmall
      else
        case findMatch inputData (inputPos st) (currentWindowSize (inputPos st))
               (currentMaxMatchLen inputData (inputPos st)) of
             None \<Rightarrow>
               (case flushFlag (st\<lparr>bitCount := bitCount st + 1\<rparr>) of
                  Inl e \<Rightarrow> Inl e
                | Inr st1 \<Rightarrow>
                    if outputPos st1 \<ge> length (outputBuffer st1) then Inl errBufferTooSmall
                    else Inr (st1\<lparr>outputBuffer :=
                                     (outputBuffer st1)[outputPos st1 := inputData ! inputPos st1],
                                   inputPos := inputPos st1 + 1,
                                   outputPos := outputPos st1 + 1\<rparr>))
           | Some (matchOffset, matchLength) \<Rightarrow>
               (case flushFlag (st\<lparr>currentFlag :=
                                      currentFlag st OR push_bit (7 - bitCount st) 1,
                                    bitCount := bitCount st + 1\<rparr>) of
                  Inl e \<Rightarrow> Inl e
                | Inr st1 \<Rightarrow>
                    if outputPos st1 + 1 \<ge> length (outputBuffer st1) then Inl errBufferTooSmall
                    else
                      let v = encodedPairVal matchOffset matchLength
                      in Inr (st1\<lparr>outputBuffer :=
                                      (outputBuffer st1)
                                        [outputPos st1 := ucast (v AND 0xFF),
                                         outputPos st1 + 1 := ucast (drop_bit 8 v AND 0xFF)],
                                    outputPos := outputPos st1 + 2,
                                    inputPos := inputPos st1 + matchLength\<rparr>)))"

function enc_loop :: "byte list \<Rightarrow> enc_state \<Rightarrow> error + enc_state" where
  "enc_loop inputData st =
     (if inputPos st < length inputData then
        (case enc_step inputData st of
           Inl e \<Rightarrow> Inl e
         | Inr st' \<Rightarrow> enc_loop inputData st')
      else Inr st)"
  by pat_completeness auto

text \<open>
  \<^verbatim>\<open>coreCompressV1\<close>: the buffer of the estimated size, the first control byte, the loop,
  and the last control byte stored before the used part of the buffer is returned.
\<close>

definition coreCompressV1 :: "byte list \<Rightarrow> error + byte list" where
  "coreCompressV1 inputData =
     (if length inputData = 0 then Inr []
      else
        let estimatedOutputSize = (if length inputData < 1024 then length inputData * 2 + 128
                                   else length inputData + outputBufferSlack);
            estimatedOutputSize = (if estimatedOutputSize < 128 then 128
                                   else estimatedOutputSize);
            buf = replicate estimatedOutputSize (0 :: byte)
        in if 0 \<ge> length buf then Inl errBufferTooSmall
           else
             (case enc_loop inputData
                     \<lparr>inputPos = 0, outputPos = 1, currentFlag = 0, bitCount = 0, flagPos = 0,
                      outputBuffer = buf[0 := 0]\<rparr> of
                Inl e \<Rightarrow> Inl e
              | Inr st \<Rightarrow>
                  Inr (slice ((outputBuffer st)[flagPos st := currentFlag st]) 0 (outputPos st))))"

text \<open>
  \<^verbatim>\<open>compressAndPadToPCMP\<close>. An error of \<^verbatim>\<open>coreCompressV1\<close> is returned wrapped
  (\<^verbatim>\<open>fmt.Errorf("...: %w", err)\<close>); the model returns the wrapped error itself.
\<close>

definition compressAndPadToPCMP :: "byte list \<Rightarrow> error + byte list" where
  "compressAndPadToPCMP inputData =
     (let totalUncompressedSize = (word_of_nat (length inputData) :: uint32)
      in case coreCompressV1 inputData of
           Inl e \<Rightarrow> Inl e
         | Inr compressedStream \<Rightarrow>
             let totalCompressedStreamSize = (word_of_nat (length compressedStream) :: uint32)
             in case writePCMPHeader totalUncompressedSize totalCompressedStreamSize of
                  Inl e \<Rightarrow> Inl e
                | Inr pcmpHeader \<Rightarrow>
                    let finalOutputData = pcmpHeader @ compressedStream;
                        currentSize = length finalOutputData;
                        remainder = currentSize mod fileAlignment;
                        paddingNeeded = (if remainder \<noteq> 0 then fileAlignment - remainder else 0)
                    in if paddingNeeded > 0
                       then Inr (finalOutputData @ replicate paddingNeeded 0)
                       else Inr finalOutputData)"

subsection \<open>The decoder\<close>

record dec_state =
  streamIdx :: nat
  controlByte :: byte
  bitsLeft :: int
  outBuffer :: "byte list"

text \<open>
  The loop \<^verbatim>\<open>for i := 0; i < count; i++\<close> of a copy; the first argument is the number of
  iterations left, \<open>count - i\<close>.
\<close>

fun copy_loop :: "nat \<Rightarrow> nat \<Rightarrow> uint32 \<Rightarrow> byte list \<Rightarrow> byte list" where
  "copy_loop 0 offset uncompressedSize out = out"
| "copy_loop (Suc k) offset uncompressedSize out =
     (if (word_of_nat (length out) :: uint32) \<ge> uncompressedSize then out
      else if offset > length out then copy_loop k offset uncompressedSize (out @ [0])
      else copy_loop k offset uncompressedSize (out @ [out ! (length out - offset)]))"

text \<open>
  The offset and the count of a copy token, as the decoder reads them from its two bytes:
  \<^verbatim>\<open>int(((uint16(byte1) >> 4) | (uint16(byte2) << 4))) + 1\<close> and
  \<^verbatim>\<open>int((byte1 & 0x0F)) + 3\<close>.
\<close>

definition decodeOffset :: "byte \<Rightarrow> byte \<Rightarrow> nat" where
  "decodeOffset byte1 byte2 =
     unat (drop_bit 4 (ucast byte1 :: uint16) OR push_bit 4 (ucast byte2 :: uint16)) + 1"

definition decodeCount :: "byte \<Rightarrow> nat" where
  "decodeCount byte1 = unat (byte1 AND 0x0F) + 3"

text \<open>How one iteration of the decoding loop ends: by \<^verbatim>\<open>break\<close>, or at the end of its body.\<close>

datatype flow = Break dec_state | Continue dec_state

text \<open>The copy branch and the literal branch of the loop body.\<close>

definition copyToken :: "byte list \<Rightarrow> uint32 \<Rightarrow> dec_state \<Rightarrow> error + flow" where
  "copyToken compressedStream uncompressedSize d =
     (if streamIdx d + 1 \<ge> length compressedStream then Inl errPrematureEndCopy
      else
        let byte1 = compressedStream ! streamIdx d;
            byte2 = compressedStream ! (streamIdx d + 1);
            offset = decodeOffset byte1 byte2;
            count = decodeCount byte1
        in Inr (Continue (d\<lparr>streamIdx := streamIdx d + 2,
                              outBuffer := copy_loop count offset uncompressedSize
                                             (outBuffer d)\<rparr>)))"

definition literalToken :: "byte list \<Rightarrow> uint32 \<Rightarrow> dec_state \<Rightarrow> error + flow" where
  "literalToken compressedStream uncompressedSize d =
     (if streamIdx d \<ge> length compressedStream then Inl errPrematureEndLiteral
      else if (word_of_nat (length (outBuffer d)) :: uint32) \<ge> uncompressedSize
      then Inr (Break d)
      else Inr (Continue (d\<lparr>outBuffer := outBuffer d @ [compressedStream ! streamIdx d],
                              streamIdx := streamIdx d + 1\<rparr>)))"

text \<open>One iteration of the loop \<^verbatim>\<open>for uint32(len(outBuffer)) < uncompressedSize\<close>.\<close>

definition dec_step :: "byte list \<Rightarrow> uint32 \<Rightarrow> dec_state \<Rightarrow> error + flow" where
  "dec_step compressedStream uncompressedSize d =
     (let streamLen = length compressedStream in
      if streamIdx d > streamLen then Inl errStreamPrematureEnd
      else
        let isCopyOperation = (controlByte d AND 0x80 \<noteq> 0);
            d = d\<lparr>controlByte := push_bit 1 (controlByte d), bitsLeft := bitsLeft d - 1\<rparr>
        in if bitsLeft d = 0 \<and> streamIdx d \<ge> streamLen then
             (if (word_of_nat (length (outBuffer d)) :: uint32) < uncompressedSize
              then Inl errStreamPrematureEnd
              else Inr (Break d))
           else
             let d = (if bitsLeft d = 0
                      then d\<lparr>controlByte := compressedStream ! streamIdx d,
                             streamIdx := streamIdx d + 1, bitsLeft := 8\<rparr>
                      else d)
             in if isCopyOperation then copyToken compressedStream uncompressedSize d
                else literalToken compressedStream uncompressedSize d)"

function dec_loop :: "byte list \<Rightarrow> uint32 \<Rightarrow> dec_state \<Rightarrow> error + dec_state" where
  "dec_loop compressedStream uncompressedSize d =
     (if (word_of_nat (length (outBuffer d)) :: uint32) < uncompressedSize then
        (case dec_step compressedStream uncompressedSize d of
           Inl e \<Rightarrow> Inl e
         | Inr (Break d') \<Rightarrow> Inr d'
         | Inr (Continue d') \<Rightarrow> dec_loop compressedStream uncompressedSize d')
      else Inr d)"
  by pat_completeness auto

definition lzssSimpleDecompress :: "byte list \<Rightarrow> uint32 \<Rightarrow> error + byte list" where
  "lzssSimpleDecompress compressedStream uncompressedSize =
     (if length compressedStream = 0 then
        (if uncompressedSize > 0 then Inl errStreamEmpty else Inr [])
      else
        (case dec_loop compressedStream uncompressedSize
                \<lparr>streamIdx = 1, controlByte = compressedStream ! 0, bitsLeft = 8,
                 outBuffer = []\<rparr> of
           Inl e \<Rightarrow> Inl e
         | Inr d \<Rightarrow> Inr (outBuffer d)))"

subsection \<open>Occurrences of a pattern before a position\<close>

text \<open>
  The \<open>l\<close> bytes at position \<open>p\<close> also stand \<open>off\<close> bytes earlier, entirely before \<open>p\<close>.
\<close>

definition occurs_at :: "byte list \<Rightarrow> nat \<Rightarrow> nat \<Rightarrow> nat \<Rightarrow> bool" where
  "occurs_at inputData p l off \<longleftrightarrow>
     l \<le> off \<and> off \<le> p \<and> take l (drop (p - off) inputData) = take l (drop p inputData)"

text \<open>The length of the output as the decoder compares it: \<^verbatim>\<open>uint32(len(outBuffer))\<close>.\<close>

definition lenw :: "byte list \<Rightarrow> nat" where
  "lenw out = unat (word_of_nat (length out) :: uint32)"

subsection \<open>Notions used in the proofs\<close>

text \<open>
  The part of the encoder's state that decides whether the output buffer suffices: eight
  times the output position, plus the bits used of the open control byte, is at most eight
  plus nine times the input position (a literal costs one byte and an eighth of a control
  byte for one input byte, a copy two bytes and an eighth for at least three).
\<close>

definition cap_inv :: "enc_state \<Rightarrow> bool" where
  "cap_inv st \<longleftrightarrow> bitCount st < 8 \<and> 8 * outputPos st + bitCount st \<le> 8 + 9 * inputPos st"

text \<open>The state of the encoder after \<open>inputPos\<close> literals and no copy.\<close>

definition lit_inv :: "enc_state \<Rightarrow> bool" where
  "lit_inv st \<longleftrightarrow>
     outputPos st = 1 + inputPos st + inputPos st div 8 \<and> bitCount st = inputPos st mod 8"

text \<open>
  An input without a repeated run of three bytes: the numbers \<open>k = 0, 1, 2, \<dots>\<close> written
  as \<open>k mod 128\<close>, \<open>k div 128\<close> and the marker 255.
\<close>

definition gen :: "nat \<Rightarrow> nat" where
  "gen i = (if i mod 3 = 2 then 255
            else if i mod 3 = 0 then (i div 3) mod 128
            else (i div 3) div 128)"

definition incompressible :: "nat \<Rightarrow> byte list" where
  "incompressible n = map (\<lambda>i. word_of_nat (gen i)) [0..<n]"

text \<open>
  What the encoder maintains between iterations: fewer than eight bits used in the open
  control byte, whose slot lies before the output position, which lies within the buffer;
  the input position within the input; and only the bits used so far set in the flag.
\<close>

definition enc_inv :: "byte list \<Rightarrow> enc_state \<Rightarrow> bool" where
  "enc_inv xs st \<longleftrightarrow>
     bitCount st < 8 \<and> flagPos st < outputPos st \<and> outputPos st \<le> length (outputBuffer st) \<and>
     inputPos st \<le> length xs \<and> (\<forall>j. bit (currentFlag st) j \<longrightarrow> 8 - bitCount st \<le> j)"

text \<open>The stream \<^verbatim>\<open>coreCompressV1\<close> returns from the last state of the loop.\<close>

definition final_stream :: "enc_state \<Rightarrow> byte list" where
  "final_stream st = slice ((outputBuffer st)[flagPos st := currentFlag st]) 0 (outputPos st)"

text \<open>
  A stream \<open>S\<close> agrees with a state of the encoder: it has the bytes written so far, but
  for the open control byte, of which it has the bits set so far.
\<close>

definition agrees :: "enc_state \<Rightarrow> byte list \<Rightarrow> bool" where
  "agrees st S \<longleftrightarrow>
     outputPos st \<le> length S \<and>
     (\<forall>i < outputPos st. i \<noteq> flagPos st \<longrightarrow> S ! i = outputBuffer st ! i) \<and>
     (\<forall>j. 8 - bitCount st \<le> j \<longrightarrow> bit (S ! flagPos st) j = bit (currentFlag st) j)"

text \<open>
  The state of the decoder reading \<open>S\<close> that corresponds to a state of the encoder on the
  input \<open>xs\<close>.
\<close>

definition dec_rel :: "byte list \<Rightarrow> enc_state \<Rightarrow> byte list \<Rightarrow> dec_state \<Rightarrow> bool" where
  "dec_rel xs st S d \<longleftrightarrow>
     streamIdx d = outputPos st \<and> outBuffer d = take (inputPos st) xs \<and>
     bitsLeft d = 8 - int (bitCount st) \<and>
     controlByte d = push_bit (bitCount st) (S ! flagPos st)"

text \<open>
  The number of bytes of the stream that \<^verbatim>\<open>lzssSimpleDecompress\<close> has read when it returns
  an output: the value of \<^verbatim>\<open>streamIdx\<close> at the end of the loop.
\<close>

definition lzssConsumed :: "byte list \<Rightarrow> uint32 \<Rightarrow> nat" where
  "lzssConsumed compressedStream uncompressedSize =
     (if length compressedStream = 0 then 0
      else
        (case dec_loop compressedStream uncompressedSize
                \<lparr>streamIdx = 1, controlByte = compressedStream ! 0, bitsLeft = 8,
                 outBuffer = []\<rparr> of
           Inl e \<Rightarrow> 0
         | Inr d \<Rightarrow> streamIdx d))"

text \<open>The size \<^verbatim>\<open>coreCompressV1\<close> gives its buffer: \<^verbatim>\<open>estimatedOutputSize\<close>.\<close>

definition bufferSize :: "byte list \<Rightarrow> nat" where
  "bufferSize inputData =
     (let estimatedOutputSize = (if length inputData < 1024 then length inputData * 2 + 128
                                 else length inputData + outputBufferSlack)
      in if estimatedOutputSize < 128 then 128 else estimatedOutputSize)"

text \<open>
  \<^verbatim>\<open>coreCompressV1\<close> on an input that is not empty, with the size of the buffer as a
  parameter instead of \<^verbatim>\<open>estimatedOutputSize\<close>.
\<close>

definition compressInto :: "nat \<Rightarrow> byte list \<Rightarrow> error + byte list" where
  "compressInto bufSize inputData =
     (let buf = replicate bufSize (0 :: byte)
      in if 0 \<ge> length buf then Inl errBufferTooSmall
         else
           (case enc_loop inputData
                   \<lparr>inputPos = 0, outputPos = 1, currentFlag = 0, bitCount = 0, flagPos = 0,
                    outputBuffer = buf[0 := 0]\<rparr> of
              Inl e \<Rightarrow> Inl e
            | Inr st \<Rightarrow>
                Inr (slice ((outputBuffer st)[flagPos st := currentFlag st]) 0 (outputPos st))))"

text \<open>
  The compressed stream of an input: what the loop writes when the buffer is large enough
  (\<open>2 * len + 2\<close> bytes always are), as an encoder that grows its buffer would return it.
\<close>

definition unboundedStream :: "byte list \<Rightarrow> byte list" where
  "unboundedStream inputData =
     (if length inputData = 0 then []
      else case compressInto (2 * length inputData + 2) inputData of
             Inl e \<Rightarrow> []
           | Inr s \<Rightarrow> s)"

text \<open>Two states of the encoder that differ only in the buffer beyond the output position.\<close>

definition same_upto :: "enc_state \<Rightarrow> enc_state \<Rightarrow> bool" where
  "same_upto st1 st2 \<longleftrightarrow>
     inputPos st2 = inputPos st1 \<and> outputPos st2 = outputPos st1 \<and>
     currentFlag st2 = currentFlag st1 \<and> bitCount st2 = bitCount st1 \<and>
     flagPos st2 = flagPos st1 \<and>
     (\<forall>i < outputPos st1. outputBuffer st2 ! i = outputBuffer st1 ! i)"

text \<open>
  The bound on the output position that holds while a constant input of \<open>n\<close> bytes is
  encoded: nine eighths of a byte for each of the first three bytes, six eighths for each
  byte copied, and three more for each of the last two bytes.
\<close>

definition run_inv :: "nat \<Rightarrow> enc_state \<Rightarrow> bool" where
  "run_inv n st \<longleftrightarrow>
     bitCount st < 8 \<and>
     8 * outputPos st + bitCount st
       \<le> 8 + 9 * min (inputPos st) 3 + 6 * (inputPos st - 3) + 3 * (inputPos st - (n - 2))"

section \<open>The match finder returns the longest, nearest occurrence\<close>

lemma find_rev_upt_Some:
  "find P (rev [0..<n]) = Some i \<longleftrightarrow> i < n \<and> P i \<and> (\<forall>j. i < j \<and> j < n \<longrightarrow> \<not> P j)"
proof (induction n)
  case 0
  then show ?case by simp
next
  case (Suc n)
  show ?case
  proof (cases "P n")
    case True
    then show ?thesis
      by (auto simp: less_Suc_eq)
  next
    case False
    then show ?thesis using Suc
      by (auto simp: less_Suc_eq)
  qed
qed

lemma find_rev_upt_None:
  "find P (rev [0..<n]) = None \<longleftrightarrow> (\<forall>j<n. \<not> P j)"
  by (simp add: find_None_iff)

lemma LastIndex_Some:
  "LastIndex s sep = Some i \<longleftrightarrow>
     i + length sep \<le> length s \<and> take (length sep) (drop i s) = sep \<and>
     (\<forall>j. i < j \<and> j + length sep \<le> length s \<longrightarrow> take (length sep) (drop j s) \<noteq> sep)"
proof (cases "length s < length sep")
  case True
  then show ?thesis by (simp add: LastIndex_def)
next
  case False
  then have *: "\<And>j. j < length s - length sep + 1 \<longleftrightarrow> j + length sep \<le> length s"
    by arith
  from False have "LastIndex s sep = find (\<lambda>i. take (length sep) (drop i s) = sep) (rev [0..<length s - length sep + 1])"
    by (simp only: LastIndex_def if_False)
  then show ?thesis
    by (simp only: find_rev_upt_Some *)
qed

lemma LastIndex_None:
  "LastIndex s sep = None \<longleftrightarrow>
     (\<forall>j. j + length sep \<le> length s \<longrightarrow> take (length sep) (drop j s) \<noteq> sep)"
proof (cases "length s < length sep")
  case True
  then show ?thesis by (simp add: LastIndex_def)
next
  case False
  then have *: "\<And>j. j < length s - length sep + 1 \<longleftrightarrow> j + length sep \<le> length s"
    by arith
  from False have "LastIndex s sep = find (\<lambda>i. take (length sep) (drop i s) = sep) (rev [0..<length s - length sep + 1])"
    by (simp only: LastIndex_def if_False)
  then show ?thesis
    by (simp only: find_rev_upt_None *)
qed

lemma slice_add [simp]: "slice b lo (lo + l) = take l (drop lo b)"
  by (simp add: slice_def)

lemma length_slice: "hi \<le> length b \<Longrightarrow> length (slice b lo hi) = hi - lo"
  by (simp add: slice_def)

lemma take_drop_window:
  assumes "ws \<le> p" "p \<le> length xs" "i + l \<le> p - ws"
  shows "take l (drop i (slice xs ws p)) = take l (drop (ws + i) xs)"
  using assms by (simp add: slice_def drop_take min_def add.commute)

lemma LastIndex_window_Some:
  assumes "ws \<le> p" "p + l \<le> length xs"
    and "LastIndex (slice xs ws p) (slice xs p (p + l)) = Some idx"
  shows "idx + l \<le> p - ws \<and> occurs_at xs p l (p - (ws + idx)) \<and>
         (\<forall>off'. off' < p - (ws + idx) \<longrightarrow> \<not> occurs_at xs p l off')"
proof -
  let ?w = "slice xs ws p" and ?pat = "slice xs p (p + l)"
  have lp: "length ?pat = l" using assms(2) by (simp add: slice_def)
  have lw: "length ?w = p - ws" using assms(1,2) by (simp add: slice_def)
  from assms(3) have a: "idx + l \<le> p - ws" and b: "take l (drop idx ?w) = ?pat"
    and c: "\<And>j. idx < j \<Longrightarrow> j + l \<le> p - ws \<Longrightarrow> take l (drop j ?w) \<noteq> ?pat"
    unfolding LastIndex_Some lp lw by blast+
  have occ: "occurs_at xs p l (p - (ws + idx))"
  proof -
    have "take l (drop (ws + idx) xs) = ?pat"
      using b take_drop_window[of ws p xs idx l] assms a by simp
    moreover have "p - (p - (ws + idx)) = ws + idx" using a assms(1) by arith
    ultimately show ?thesis using a by (simp add: occurs_at_def)
  qed
  have nearest: "\<not> occurs_at xs p l off'" if "off' < p - (ws + idx)" for off'
  proof
    assume o: "occurs_at xs p l off'"
    define j where "j = p - ws - off'"
    have j: "idx < j" "j + l \<le> p - ws" "ws + j = p - off'"
      using that o a assms(1) by (auto simp: occurs_at_def j_def)
    have "take l (drop j ?w) = take l (drop (p - off') xs)"
      using take_drop_window[of ws p xs j l] assms j by simp
    also have "\<dots> = ?pat" using o by (simp add: occurs_at_def)
    finally show False using c[OF j(1,2)] by simp
  qed
  show ?thesis using a occ nearest by blast
qed

lemma LastIndex_window_None:
  assumes "ws \<le> p" "p + l \<le> length xs"
    and "LastIndex (slice xs ws p) (slice xs p (p + l)) = None"
    and "off' \<le> p - ws"
  shows "\<not> occurs_at xs p l off'"
proof
  assume o: "occurs_at xs p l off'"
  let ?w = "slice xs ws p" and ?pat = "slice xs p (p + l)"
  have lp: "length ?pat = l" using assms(2) by (simp add: slice_def)
  have lw: "length ?w = p - ws" using assms(1,2) by (simp add: slice_def)
  from assms(3) have c: "\<And>j. j + l \<le> p - ws \<Longrightarrow> take l (drop j ?w) \<noteq> ?pat"
    unfolding LastIndex_None lp lw by blast
  define j where "j = p - ws - off'"
  have j: "j + l \<le> p - ws" "ws + j = p - off'"
    using o assms(1,4) by (auto simp: occurs_at_def j_def)
  have "take l (drop j ?w) = take l (drop (p - off') xs)"
    using take_drop_window[of ws p xs j l] assms j by simp
  also have "\<dots> = ?pat" using o by (simp add: occurs_at_def)
  finally show False using c[OF j(1)] by simp
qed

lemma findMatch_loop_Some:
  assumes "findMatch_loop xs p ws w l0 = Some (off, l)" "w = slice xs ws p" "ws \<le> p" "p \<le> length xs"
  shows "minMatchLength \<le> l \<and> l \<le> l0 \<and> p + l \<le> length xs \<and> off \<le> p - ws \<and>
         occurs_at xs p l off \<and> (\<forall>off'<off. \<not> occurs_at xs p l off') \<and>
         (\<forall>l' off'. l < l' \<and> l' \<le> l0 \<and> p + l' \<le> length xs \<and> off' \<le> p - ws
             \<longrightarrow> \<not> occurs_at xs p l' off')"
  using assms
proof (induction xs p ws w l0 rule: findMatch_loop.induct)
  case (1 xs p ws w l0)
  from "1.prems"(1) have ge: "minMatchLength \<le> l0"
    by (subst (asm) findMatch_loop.simps) (simp split: if_splits)
  note w = "1.prems"(2)
  show ?case
  proof (cases "p + l0 > length xs")
    case True
    with ge "1.prems" have "findMatch_loop xs p ws w (l0 - 1) = Some (off, l)"
      by (subst (asm) findMatch_loop.simps) simp
    from "1.IH"(1)[OF ge True this "1.prems"(2,3,4)] True show ?thesis
      by (auto simp: le_Suc_eq dest: Suc_pred')
  next
    case False
    show ?thesis
    proof (cases "LastIndex w (slice xs p (p + l0))")
      case None
      with ge False "1.prems" have "findMatch_loop xs p ws w (l0 - 1) = Some (off, l)"
        by (subst (asm) findMatch_loop.simps) simp
      from "1.IH"(2)[OF ge False None this "1.prems"(2,3,4)]
      have IH: "minMatchLength \<le> l" "l \<le> l0 - 1" "p + l \<le> length xs" "off \<le> p - ws"
         "occurs_at xs p l off" "\<forall>off'<off. \<not> occurs_at xs p l off'"
         "\<And>l' off'. l < l' \<Longrightarrow> l' \<le> l0 - 1 \<Longrightarrow> p + l' \<le> length xs \<Longrightarrow> off' \<le> p - ws
             \<Longrightarrow> \<not> occurs_at xs p l' off'" by blast+
      have top: "\<not> occurs_at xs p l0 off'" if "off' \<le> p - ws" for off'
        using LastIndex_window_None[OF "1.prems"(3) _ None[unfolded w] that] False by simp
      have "\<not> occurs_at xs p l' off'" if "l < l'" "l' \<le> l0" "p + l' \<le> length xs" "off' \<le> p - ws" for l' off'
      proof (cases "l' = l0")
        case True
        then show ?thesis using top that by simp
      next
        case False
        then show ?thesis using IH(7)[of l' off'] that by simp
      qed
      with IH show ?thesis by auto
    next
      case (Some idx)
      with ge False "1.prems" have eq: "off = p - (ws + idx)" "l = l0"
        by (subst (asm) findMatch_loop.simps, simp)+
      from False have b: "p + l0 \<le> length xs" by simp
      from LastIndex_window_Some[OF "1.prems"(3) b Some[unfolded w]] eq ge b show ?thesis
        by auto
    qed
  qed
qed

lemma findMatch_loop_None:
  assumes "findMatch_loop xs p ws w l0 = None" "w = slice xs ws p" "ws \<le> p" "p \<le> length xs"
    and "minMatchLength \<le> l'" "l' \<le> l0" "p + l' \<le> length xs" "off' \<le> p - ws"
  shows "\<not> occurs_at xs p l' off'"
  using assms
proof (induction xs p ws w l0 rule: findMatch_loop.induct)
  case (1 xs p ws w l0)
  from "1.prems" have ge: "minMatchLength \<le> l0" by simp
  note w = "1.prems"(2)
  show ?case
  proof (cases "p + l0 > length xs")
    case True
    with ge "1.prems" have "findMatch_loop xs p ws w (l0 - 1) = None"
      by (subst (asm) findMatch_loop.simps) simp
    with "1.IH"(1)[OF ge True] True "1.prems"
    show ?thesis by (cases "l' = l0") auto
  next
    case False
    show ?thesis
    proof (cases "LastIndex w (slice xs p (p + l0))")
      case None
      with ge False "1.prems" have *: "findMatch_loop xs p ws w (l0 - 1) = None"
        by (subst (asm) findMatch_loop.simps) simp
      show ?thesis
      proof (cases "l' = l0")
        case True
        then show ?thesis
          using LastIndex_window_None[OF "1.prems"(3) _ None[unfolded w] "1.prems"(8)] False by simp
      next
        case False
        then show ?thesis using "1.IH"(2)[OF ge \<open>\<not> length xs < p + l0\<close> None *] "1.prems" by simp
      qed
    next
      case (Some idx)
      with ge False "1.prems" show ?thesis
        by (subst (asm) findMatch_loop.simps) simp
    qed
  qed
qed

lemma findMatch_Some:
  assumes "findMatch xs p w m = Some (off, l)"
  shows "minMatchLength \<le> l \<and> l \<le> m \<and> p + l \<le> length xs \<and> off \<le> w \<and>
         occurs_at xs p l off \<and> (\<forall>off'<off. \<not> occurs_at xs p l off') \<and>
         (\<forall>l' off'. l < l' \<and> l' \<le> m \<and> p + l' \<le> length xs \<and> off' \<le> w
             \<longrightarrow> \<not> occurs_at xs p l' off')"
proof -
  define m' where "m' = (if p + m > length xs then length xs - p else m)"
  from assms have p: "p + minMatchLength \<le> length xs" and m': "minMatchLength \<le> m'"
    and loop: "findMatch_loop xs p (p - w) (slice xs (p - w) p) m' = Some (off, l)"
    by (auto simp: findMatch_def Let_def m'_def split: if_splits)
  have "p \<le> length xs" using p by simp
  from findMatch_loop_Some[OF loop refl diff_le_self this]
  have L: "minMatchLength \<le> l" "l \<le> m'" "p + l \<le> length xs" "off \<le> p - (p - w)"
    "occurs_at xs p l off" "\<forall>off'<off. \<not> occurs_at xs p l off'"
    "\<And>l' off'. l < l' \<Longrightarrow> l' \<le> m' \<Longrightarrow> p + l' \<le> length xs \<Longrightarrow> off' \<le> p - (p - w)
       \<Longrightarrow> \<not> occurs_at xs p l' off'"
    by blast+
  have "\<not> occurs_at xs p l' off'"
    if "l < l'" "l' \<le> m" "p + l' \<le> length xs" "off' \<le> w" for l' off'
  proof (cases "off' \<le> p")
    case True
    with that have "l' \<le> m'" "off' \<le> p - (p - w)" by (auto simp: m'_def)
    then show ?thesis using L(7) that by blast
  next
    case False
    then show ?thesis by (simp add: occurs_at_def)
  qed
  moreover have "l \<le> m" "off \<le> w" using L(2,4) by (auto simp: m'_def split: if_splits)
  ultimately show ?thesis using L by blast
qed

lemma findMatch_None:
  assumes "findMatch xs p w m = None"
    and "minMatchLength \<le> l'" "l' \<le> m" "p + l' \<le> length xs" "off' \<le> w"
  shows "\<not> occurs_at xs p l' off'"
proof
  assume o: "occurs_at xs p l' off'"
  define m' where "m' = (if p + m > length xs then length xs - p else m)"
  have p: "p + minMatchLength \<le> length xs" "p \<le> length xs" and m': "minMatchLength \<le> m'" "l' \<le> m'"
    using assms(2-4) by (auto simp: m'_def)
  have off': "off' \<le> p - (p - w)" "0 < p - (p - w)"
    using o assms(2,5) by (auto simp: occurs_at_def minMatchLength_def)
  then have "length (slice xs (p - w) p) \<noteq> 0" using p(2) by (simp add: slice_def)
  with assms(1) p m' have loop: "findMatch_loop xs p (p - w) (slice xs (p - w) p) m' = None"
    by (simp add: findMatch_def Let_def m'_def[symmetric] del: length_0_conv)
  from findMatch_loop_None[OF loop refl diff_le_self p(2) assms(2) m'(2) assms(4) off'(1)] o
  show False by simp
qed

section \<open>Both loops terminate\<close>

lemma flushFlag_inputPos: "flushFlag st = Inr st' \<Longrightarrow> inputPos st' = inputPos st"
  by (auto simp: flushFlag_def Let_def split: if_splits)

lemma enc_step_inputPos:
  assumes "enc_step xs st = Inr st'"
  shows "inputPos st < inputPos st'"
proof (cases "findMatch xs (inputPos st) (currentWindowSize (inputPos st))
                (currentMaxMatchLen xs (inputPos st))")
  case None
  with assms show ?thesis
    by (auto simp: enc_step_def Let_def split: if_splits sum.splits dest!: flushFlag_inputPos)
next
  case (Some m)
  obtain off l where m: "m = (off, l)" by (cases m)
  from findMatch_Some[OF Some[unfolded m]] have "0 < l" by (simp add: minMatchLength_def)
  with assms Some m show ?thesis
    by (auto simp: enc_step_def Let_def split: if_splits sum.splits dest!: flushFlag_inputPos)
qed

termination enc_loop
  by (relation "measure (\<lambda>(xs, st). length xs - inputPos st)")
     (auto dest: enc_step_inputPos)

declare enc_loop.simps [simp del]

lemma lenw_snoc:
  assumes "(word_of_nat (length out) :: uint32) < n"
  shows "lenw (out @ [x]) = lenw out + 1"
proof -
  have "lenw out < unat n" using assms by (simp add: lenw_def word_less_nat_alt)
  moreover have "unat n < 2 ^ 32" using unsigned_less[of n, where ?'a=nat] by simp
  ultimately have "length out mod 2 ^ 32 + 1 < 2 ^ 32" by (simp add: lenw_def unat_of_nat)
  then have "(length out + 1) mod 2 ^ 32 = length out mod 2 ^ 32 + 1"
    by (metis mod_add_left_eq mod_less)
  then show ?thesis unfolding lenw_def unat_of_nat by simp
qed

lemma copy_loop_lenw:
  "lenw out \<le> lenw (copy_loop k off n out)"
proof (induction k arbitrary: out)
  case 0
  then show ?case by simp
next
  case (Suc k)
  show ?case
  proof (cases "(word_of_nat (length out) :: uint32) \<ge> n")
    case True
    then show ?thesis by simp
  next
    case False
    then have lt: "(word_of_nat (length out) :: uint32) < n" by simp
    show ?thesis
      using Suc[of "out @ [0]"] Suc[of "out @ [out ! (length out - off)]"] False
        lenw_snoc[OF lt]
      by (auto simp: not_le)
  qed
qed

lemma copy_loop_lenw_less:
  assumes "(word_of_nat (length out) :: uint32) < n" "0 < k"
  shows "lenw out < lenw (copy_loop k off n out)"
proof -
  obtain k' where k: "k = Suc k'" using assms(2) by (cases k) auto
  show ?thesis
    using copy_loop_lenw[of "out @ [0]" k' off n]
      copy_loop_lenw[of "out @ [out ! (length out - off)]" k' off n]
      lenw_snoc[OF assms(1)] assms(1)
    by (auto simp: k not_le)
qed

lemma dec_step_lenw:
  assumes "dec_step cs n d = Inr (Continue d')" "(word_of_nat (length (outBuffer d)) :: uint32) < n"
  shows "lenw (outBuffer d) < lenw (outBuffer d')"
  using assms
  by (auto simp: dec_step_def copyToken_def literalToken_def Let_def lenw_snoc decodeCount_def
           split: if_splits intro!: copy_loop_lenw_less)

termination dec_loop
proof (relation "measure (\<lambda>(cs, n, d). unat n - lenw (outBuffer d))", goal_cases)
  case 1
  then show ?case by simp
next
  case (2 cs n d r d')
  have "lenw (outBuffer d) < unat n" using 2(1) by (simp add: lenw_def word_less_nat_alt)
  with dec_step_lenw[of cs n d d'] 2 show ?case by simp
qed

declare dec_loop.simps [simp del]

section \<open>The two bytes of a copy token\<close>

lemma mask_numerals:
  "(0xFF :: uint16) = mask 8" "(0x0F :: byte) = mask 4" "(0x0F :: int) = mask 4" "(0x80 :: byte) = push_bit 7 1"
  by (simp_all add: mask_eq_exp_minus_1)

lemma encodedPairVal_eq:
  assumes "1 \<le> off" "3 \<le> l" "l \<le> 18"
  shows "encodedPairVal off l = push_bit 4 (word_of_nat (off - 1)) OR word_of_nat (l - 3)"
proof -
  have a: "int off - 1 = int (off - 1)" using assms by simp
  have b: "int l - 3 = int (l - 3)" using assms by simp
  have "l - 3 < 2 ^ 4" using assms by simp
  then have c: "take_bit 4 (l - 3) = l - 3" by (simp only: take_bit_nat_eq_self)
  have "(int (l - 3)) AND 0x0F = int (take_bit 4 (l - 3))"
    unfolding mask_numerals by (simp add: take_bit_eq_mask of_nat_and_eq of_nat_mask_eq)
  then have d: "(int (l - 3)) AND 0x0F = int (l - 3)" using c by simp
  show ?thesis
    unfolding encodedPairVal_def a b d
    by (simp add: of_int_or_eq of_int_push_bit)
qed


lemma pair_bits_count:
  fixes a b :: nat
  assumes "b < 2 ^ 4"
  defines "v \<equiv> (push_bit 4 (word_of_nat a) OR word_of_nat b :: uint16)"
  shows "unat ((ucast (v AND 0xFF) :: byte) AND 0x0F) = b"
proof -
  have c: "take_bit 4 b = b" using assms(1) by (simp only: take_bit_nat_eq_self)
  have "(ucast (v AND 0xFF) :: byte) AND 0x0F = word_of_nat (take_bit 4 b)"
    unfolding v_def mask_numerals
    by (rule bit_word_eqI) (auto simp: bit_simps)
  then have "unat ((ucast (v AND 0xFF) :: byte) AND 0x0F) = unat (word_of_nat b :: byte)"
    unfolding c by simp
  also have "\<dots> = b" using assms(1) by (simp add: unat_of_nat)
  finally show ?thesis .
qed

lemma pair_bits_offset:
  fixes a b :: nat
  assumes "a < 2 ^ 12" "b < 2 ^ 4"
  defines "v \<equiv> (push_bit 4 (word_of_nat a) OR word_of_nat b :: uint16)"
  shows "unat (drop_bit 4 (ucast (ucast (v AND 0xFF) :: byte) :: uint16)
          OR push_bit 4 (ucast (ucast (drop_bit 8 v AND 0xFF) :: byte) :: uint16)) = a"
proof -
  have c: "take_bit 12 a = a" using assms(1) by (simp only: take_bit_nat_eq_self)
  have d: "take_bit 4 b = b" using assms(2) by (simp only: take_bit_nat_eq_self)
  have nb: "\<not> bit b n" if "4 \<le> n" for n
    using d that by (metis bit_take_bit_iff not_le)
  have "drop_bit 4 (ucast (ucast (v AND 0xFF) :: byte) :: uint16)
          OR push_bit 4 (ucast (ucast (drop_bit 8 v AND 0xFF) :: byte) :: uint16)
        = word_of_nat (take_bit 12 a)"
    unfolding v_def mask_numerals
    apply (rule bit_word_eqI)
    apply (auto simp: bit_simps nb)
    subgoal for n by (cases "n < 4") auto
    done
  then have "unat (drop_bit 4 (ucast (ucast (v AND 0xFF) :: byte) :: uint16)
          OR push_bit 4 (ucast (ucast (drop_bit 8 v AND 0xFF) :: byte) :: uint16)) = unat (word_of_nat a :: uint16)"
    unfolding c by simp
  also have "\<dots> = a" using assms(1) by (simp add: unat_of_nat)
  finally show ?thesis .
qed


lemma pair_roundtrip:
  assumes "1 \<le> off" "off \<le> 4096" "3 \<le> l" "l \<le> 18"
  shows "decodeOffset (ucast (encodedPairVal off l AND 0xFF))
           (ucast (drop_bit 8 (encodedPairVal off l) AND 0xFF)) = off"
    and "decodeCount (ucast (encodedPairVal off l AND 0xFF)) = l"
proof -
  have a: "off - 1 < 2 ^ 12" and b: "l - 3 < 2 ^ 4" using assms by simp_all
  show "decodeOffset (ucast (encodedPairVal off l AND 0xFF))
           (ucast (drop_bit 8 (encodedPairVal off l) AND 0xFF)) = off"
    unfolding decodeOffset_def encodedPairVal_eq[OF assms(1,3,4)] pair_bits_offset[OF a b]
    using assms by simp
  show "decodeCount (ucast (encodedPairVal off l AND 0xFF)) = l"
    unfolding decodeCount_def encodedPairVal_eq[OF assms(1,3,4)] pair_bits_count[OF b]
    using assms by simp
qed

section \<open>The container header\<close>

lemma Uint32_PutUint32: "Uint32 (PutUint32 v) = v"
proof (rule bit_word_eqI)
  fix n assume "n < LENGTH(32)"
  then have n: "n < 32" by simp
  have a: "8 + (n - 8) = n" if "8 \<le> n" using that by simp
  have b: "16 + (n - 16) = n" if "16 \<le> n" using that by simp
  have c: "24 + (n - 24) = n" if "24 \<le> n" using that by simp
  consider "n < 8" | "8 \<le> n" "n < 16" | "16 \<le> n" "n < 24" | "24 \<le> n" by linarith
  then show "bit (Uint32 (PutUint32 v)) n = bit v n"
  proof cases
    case 1
    then show ?thesis by (auto simp: Uint32_def PutUint32_def bit_simps)
  next
    case 2
    then show ?thesis using a by (auto simp: Uint32_def PutUint32_def bit_simps)
  next
    case 3
    then show ?thesis using b by (auto simp: Uint32_def PutUint32_def bit_simps)
  next
    case 4
    then show ?thesis using c n by (auto simp: Uint32_def PutUint32_def bit_simps)
  qed
qed

lemma writePCMPHeader_eq:
  "writePCMPHeader u c = Inr (signature @ replicate 16 0 @ PutUint32 u @ PutUint32 c @ replicate 4 0)"
proof -
  have u: "[4..<32] = [4,5,6,7,8,9,10,11,12,13,14,15,16,17,18,19,20,21,22,23,24,25,26,27,28,29,30,31::nat]"
    by code_simp
  have r: "replicate 32 (0::byte) = [0,0,0,0,0,0,0,0,0,0,0,0,0,0,0,0,0,0,0,0,0,0,0,0,0,0,0,0,0,0,0,0]"
    by code_simp
  have r16: "replicate 16 (0::byte) = [0,0,0,0,0,0,0,0,0,0,0,0,0,0,0,0]"
    by code_simp
  have r4: "replicate 4 (0::byte) = [0,0,0,0]"
    by code_simp
  show ?thesis
    unfolding writePCMPHeader_def pcmpHeaderSize_def Let_def
    apply (simp only: u r r16 r4)
    apply (simp add: copy_into_def PutUint32_def signature_def)
    done
qed

lemma readPCMPHeader_header:
  "readPCMPHeader ((signature @ replicate 16 0 @ PutUint32 u @ PutUint32 c @ replicate 4 0) @ rest)
     = Inr (u, if c = 0 \<or> c > word_of_nat (length rest) then word_of_nat (length rest) else c)"
proof -
  let ?h = "signature @ replicate 16 0 @ PutUint32 u @ PutUint32 c @ replicate 4 0"
  have l: "length (PutUint32 u) = 4" "length (PutUint32 c) = 4" "length signature = 4"
    by (simp_all add: PutUint32_def signature_def)
  have s0: "slice (?h @ rest) 0 4 = signature" using l by (simp add: slice_def)
  have s1: "slice (?h @ rest) 0x14 0x18 = PutUint32 u" using l by (simp add: slice_def)
  have s2: "slice (?h @ rest) 0x18 0x1C = PutUint32 c" using l by (simp add: slice_def)
  have len: "length (?h @ rest) = 32 + length rest" using l by simp
  show ?thesis
    unfolding readPCMPHeader_def s0 s1 s2 len Uint32_PutUint32 pcmpDataOffset_def
    by (simp add: Let_def)
qed

text \<open>
  Claim C4, as stated: parsing the 32-byte header written for \<open>(u, c)\<close> returns \<open>(u, c)\<close>.
  It fails for \<open>u = 0\<close>, \<open>c = 1\<close>: no byte follows the bare header, so
  \<^verbatim>\<open>readPCMPHeader\<close> replaces the declared compressed size by the number of bytes that
  remain, which is 0.
\<close>

theorem header_roundtrip_counterexample:
  "(case writePCMPHeader 0 1 of Inl e \<Rightarrow> Inl e | Inr h \<Rightarrow> readPCMPHeader h) \<noteq> Inr (0, 1)"
  unfolding writePCMPHeader_eq using readPCMPHeader_header[of 0 1 "[]"] by simp

text \<open>
  Claim C4, amended: \<^verbatim>\<open>writePCMPHeader u c\<close> gives 32 bytes with the signature at offset 0,
  \<open>u\<close> little-endian at offset 0x14 and \<open>c\<close> at offset 0x18; parsing these bytes followed
  by any bytes \<open>rest\<close> returns \<open>u\<close> and the compressed size clamped to what remains: \<open>c\<close>
  itself when \<open>0 < c \<le> uint32(len(rest))\<close>, and \<open>uint32(len(rest))\<close> otherwise.
\<close>

theorem header_roundtrip_clamped:
  "\<exists>h. writePCMPHeader u c = Inr h \<and> length h = 32 \<and>
       slice h 0 4 = signature \<and> slice h 0x14 0x18 = PutUint32 u \<and>
       slice h 0x18 0x1C = PutUint32 c \<and>
       Uint32 (PutUint32 u) = u \<and> Uint32 (PutUint32 c) = c \<and>
       (\<forall>rest. readPCMPHeader (h @ rest)
           = Inr (u, if c = 0 \<or> c > word_of_nat (length rest) then word_of_nat (length rest)
                     else c))"
proof -
  let ?h = "signature @ replicate 16 0 @ PutUint32 u @ PutUint32 c @ replicate 4 0"
  have l: "length (PutUint32 u) = 4" "length (PutUint32 c) = 4" "length signature = 4"
    by (simp_all add: PutUint32_def signature_def)
  have "slice ?h 0 4 = signature" "slice ?h 0x14 0x18 = PutUint32 u"
     "slice ?h 0x18 0x1C = PutUint32 c" "length ?h = 32"
    using l by (simp_all add: slice_def)
  then show ?thesis
    using writePCMPHeader_eq[of u c] readPCMPHeader_header[of u c] Uint32_PutUint32
    by blast
qed

section \<open>The match finder and the tokens of the encoder\<close>

text \<open>
  Claim C10: a match returned by \<^verbatim>\<open>findMatch\<close>, which is the copy token the encoder emits
  for it, has an offset no smaller than its length: the \<open>l\<close> bytes it refers to lie
  entirely before the current position, and they equal the \<open>l\<close> bytes at the position.
\<close>

theorem findMatch_no_overlap:
  assumes "findMatch inputData p w m = Some (off, l)"
  shows "l \<le> off \<and> off \<le> p \<and>
         take l (drop (p - off) inputData) = take l (drop p inputData)"
  using findMatch_Some[OF assms] by (simp add: occurs_at_def)

theorem findMatch_no_overlap_witness:
  "findMatch (replicate 10 0x41) 6 6 4 = Some (4, 4) \<and> (4 :: nat) \<le> 4 \<and>
   take 4 (drop (6 - 4) (replicate 10 (0x41 :: byte))) = take 4 (drop 6 (replicate 10 0x41))"
proof -
  have h: "findMatch (replicate 10 0x41) 6 6 4 = Some (4, 4)" by code_simp
  from findMatch_no_overlap[OF h] h show ?thesis by simp
qed

text \<open>
  Claim C2: for every input, position \<open>p\<close>, window bound \<open>w\<close> and length bound \<open>m\<close>, a
  match returned by \<^verbatim>\<open>findMatch\<close> has a length \<open>l\<close> between 3 and \<open>m\<close> that fits in the
  remaining input, its pattern occurs in the \<open>w\<close> bytes before \<open>p\<close>, no longer admissible
  length has any occurrence there (longest first), and no occurrence of length \<open>l\<close> is
  nearer (smallest offset). When \<^verbatim>\<open>findMatch\<close> returns nothing, no admissible length has an
  occurrence. The encoder calls it with the window bound \<open>min p 4096\<close> and the length bound
  \<open>min 18 (len - p)\<close>, and without a match it writes the input byte at \<open>p\<close> as a literal and
  advances by one.
\<close>

theorem findMatch_policy:
  "(case findMatch inputData p w m of
      None \<Rightarrow>
        (\<forall>l off. minMatchLength \<le> l \<and> l \<le> m \<and> p + l \<le> length inputData \<and> off \<le> w
            \<longrightarrow> \<not> occurs_at inputData p l off)
    | Some (off, l) \<Rightarrow>
        minMatchLength \<le> l \<and> l \<le> m \<and> p + l \<le> length inputData \<and> off \<le> w \<and>
        occurs_at inputData p l off \<and>
        (\<forall>off'<off. \<not> occurs_at inputData p l off') \<and>
        (\<forall>l' off'. l < l' \<and> l' \<le> m \<and> p + l' \<le> length inputData \<and> off' \<le> w
            \<longrightarrow> \<not> occurs_at inputData p l' off'))
   \<and> currentWindowSize p = min p 4096
   \<and> currentMaxMatchLen inputData p = min 18 (length inputData - p)
   \<and> minMatchLength = 3
   \<and> (findMatch inputData (inputPos st) (currentWindowSize (inputPos st))
           (currentMaxMatchLen inputData (inputPos st)) = None
        \<and> enc_step inputData st = Inr st'
      \<longrightarrow> inputPos st' = inputPos st + 1 \<and>
          outputBuffer st' ! (outputPos st' - 1) = inputData ! inputPos st)"
proof -
  have A: "case findMatch inputData p w m of
      None \<Rightarrow>
        (\<forall>l off. minMatchLength \<le> l \<and> l \<le> m \<and> p + l \<le> length inputData \<and> off \<le> w
            \<longrightarrow> \<not> occurs_at inputData p l off)
    | Some (off, l) \<Rightarrow>
        minMatchLength \<le> l \<and> l \<le> m \<and> p + l \<le> length inputData \<and> off \<le> w \<and>
        occurs_at inputData p l off \<and>
        (\<forall>off'<off. \<not> occurs_at inputData p l off') \<and>
        (\<forall>l' off'. l < l' \<and> l' \<le> m \<and> p + l' \<le> length inputData \<and> off' \<le> w
            \<longrightarrow> \<not> occurs_at inputData p l' off')"
  proof (cases "findMatch inputData p w m")
    case None
    then show ?thesis using findMatch_None[OF None] by auto
  next
    case (Some r)
    obtain off l where r: "r = (off, l)" by (cases r)
    show ?thesis using findMatch_Some[OF Some[unfolded r]] Some r by simp
  qed
  have B: "currentWindowSize p = min p 4096"
    "currentMaxMatchLen inputData p = min 18 (length inputData - p)" "minMatchLength = 3"
    by (auto simp: currentWindowSize_def currentMaxMatchLen_def maxWindowSize_def
        maxEncodedLength_def minMatchLength_def)
  have C: "inputPos st' = inputPos st + 1 \<and>
          outputBuffer st' ! (outputPos st' - 1) = inputData ! inputPos st"
    if "findMatch inputData (inputPos st) (currentWindowSize (inputPos st))
           (currentMaxMatchLen inputData (inputPos st)) = None" "enc_step inputData st = Inr st'"
    using that
    by (auto simp: enc_step_def flushFlag_def Let_def split: if_splits sum.splits)
  from A B C show ?thesis by blast
qed

theorem findMatch_policy_witness:
  "findMatch [1, 2, 3, 4, 1, 2, 3, 4, 1, 2, 3, 4, 5] 8 8 5 = Some (4, 4) \<and>
   occurs_at [1, 2, 3, 4, 1, 2, 3, 4, 1, 2, 3, 4, 5] 8 4 8 \<and>
   \<not> occurs_at [1, 2, 3, 4, 1, 2, 3, 4, 1, 2, 3, 4, 5] 8 4 3 \<and>
   \<not> occurs_at [1, 2, 3, 4, 1, 2, 3, 4, 1, 2, 3, 4, 5] 8 5 8 \<and>
   findMatch [1, 2, 3, 4, 1, 2, 3, 4, 1, 2, 3, 4, 5] 0 (currentWindowSize 0)
     (currentMaxMatchLen [1, 2, 3, 4, 1, 2, 3, 4, 1, 2, 3, 4, 5] 0) = None \<and>
   enc_step [1, 2, 3, 4, 1, 2, 3, 4, 1, 2, 3, 4, 5]
      \<lparr>inputPos = 0, outputPos = 1, currentFlag = 0, bitCount = 0, flagPos = 0,
       outputBuffer = [0, 0, 0, 0]\<rparr>
     = Inr \<lparr>inputPos = 1, outputPos = 2, currentFlag = 0, bitCount = 1, flagPos = 0,
            outputBuffer = [0, 1, 0, 0]\<rparr> \<and>
   [0, 1, 0, 0 :: byte] ! (2 - 1) = [1, 2, 3, 4, 1, 2, 3, 4, 1, 2, 3, 4, 5] ! 0"
proof -
  let ?A = "[1, 2, 3, 4, 1, 2, 3, 4, 1, 2, 3, 4, 5 :: byte]"
  let ?st = "\<lparr>inputPos = 0, outputPos = 1, currentFlag = 0, bitCount = 0, flagPos = 0,
       outputBuffer = [0, 0, 0, 0 :: byte]\<rparr>"
  let ?st' = "\<lparr>inputPos = 1, outputPos = 2, currentFlag = 0, bitCount = 1, flagPos = 0,
       outputBuffer = [0, 1, 0, 0 :: byte]\<rparr>"
  have h1: "findMatch ?A 8 8 5 = Some (4, 4)" by code_simp
  have h2: "findMatch ?A 0 (currentWindowSize 0) (currentMaxMatchLen ?A 0) = None" by code_simp
  have h3: "enc_step ?A ?st = Inr ?st'" by code_simp
  have h4: "occurs_at ?A 8 4 8" by code_simp
  note T = findMatch_policy[where inputData = ?A and p = 8 and w = 8 and m = 5
                              and st = ?st and st' = ?st', unfolded h1]
  from T have "\<not> occurs_at ?A 8 4 3" by simp
  moreover from T have "\<not> occurs_at ?A 8 5 8" by simp
  moreover from T h2 h3 have "[0, 1, 0, 0 :: byte] ! (2 - 1) = ?A ! 0" by simp
  ultimately show ?thesis using h1 h2 h3 h4 by blast
qed

text \<open>
  Claim C9: in every iteration of the encoder that succeeds, either no match was found and
  the literal written is the one input byte at \<open>inputPos\<close>, the position advancing by
  one, or the match \<open>(off, l)\<close> found has \<open>1 \<le> off \<le> 4096\<close> and \<open>3 \<le> l \<le> 18\<close>, the position
  advances by \<open>l\<close>, and the two bytes written, the two halves of
  \<open>((off - 1) << 4) | ((l - 3) & 0xF)\<close>, are read back by the decoder as \<open>off\<close> and \<open>l\<close>.
\<close>

theorem token_invariant:
  assumes "enc_step inputData st = Inr st'"
  shows "case findMatch inputData (inputPos st) (currentWindowSize (inputPos st))
                (currentMaxMatchLen inputData (inputPos st)) of
           None \<Rightarrow>
             inputPos st' = inputPos st + 1 \<and>
             outputBuffer st' ! (outputPos st' - 1) = inputData ! inputPos st
         | Some (off, l) \<Rightarrow>
             1 \<le> off \<and> off \<le> 4096 \<and> 3 \<le> l \<and> l \<le> 18 \<and>
             inputPos st' = inputPos st + l \<and>
             outputBuffer st' ! (outputPos st' - 2) = ucast (encodedPairVal off l AND 0xFF) \<and>
             outputBuffer st' ! (outputPos st' - 1) = ucast (drop_bit 8 (encodedPairVal off l) AND 0xFF) \<and>
             decodeOffset (outputBuffer st' ! (outputPos st' - 2))
                          (outputBuffer st' ! (outputPos st' - 1)) = off \<and>
             decodeCount (outputBuffer st' ! (outputPos st' - 2)) = l"
proof (cases "findMatch inputData (inputPos st) (currentWindowSize (inputPos st))
                (currentMaxMatchLen inputData (inputPos st))")
  case None
  with assms show ?thesis
    by (auto simp: enc_step_def flushFlag_def Let_def split: if_splits sum.splits)
next
  case (Some r)
  obtain off l where r: "r = (off, l)" by (cases r)
  from findMatch_Some[OF Some[unfolded r]]
  have b: "1 \<le> off" "off \<le> 4096" "3 \<le> l" "l \<le> 18"
    by (auto simp: occurs_at_def minMatchLength_def currentWindowSize_def currentMaxMatchLen_def
          maxWindowSize_def maxEncodedLength_def split: if_splits)
  from assms Some r
  have w: "inputPos st' = inputPos st + l"
    "outputBuffer st' ! (outputPos st' - 2) = ucast (encodedPairVal off l AND 0xFF)"
    "outputBuffer st' ! (outputPos st' - 1) = ucast (drop_bit 8 (encodedPairVal off l) AND 0xFF)"
    by (auto simp: enc_step_def flushFlag_def Let_def split: if_splits sum.splits)
  show ?thesis
    unfolding Some r using b w pair_roundtrip[OF b] by simp
qed

theorem token_invariant_witness:
  "enc_step (replicate 10 0x41)
      \<lparr>inputPos = 3, outputPos = 4, currentFlag = 0, bitCount = 3, flagPos = 0,
       outputBuffer = [0, 0x41, 0x41, 0x41, 0, 0, 0, 0]\<rparr>
    = Inr \<lparr>inputPos = 6, outputPos = 6, currentFlag = 0x10, bitCount = 4, flagPos = 0,
       outputBuffer = [0, 0x41, 0x41, 0x41, 0x20, 0, 0, 0]\<rparr>
   \<and> findMatch (replicate 10 0x41) 3 (currentWindowSize 3)
         (currentMaxMatchLen (replicate 10 0x41) 3) = Some (3, 3)
   \<and> decodeOffset 0x20 0 = 3 \<and> decodeCount 0x20 = 3"
proof -
  let ?st = "\<lparr>inputPos = 3, outputPos = 4, currentFlag = 0, bitCount = 3, flagPos = 0,
       outputBuffer = [0, 0x41, 0x41, 0x41, 0, 0, 0, 0 :: byte]\<rparr>"
  let ?st' = "\<lparr>inputPos = 6, outputPos = 6, currentFlag = 0x10, bitCount = 4, flagPos = 0,
       outputBuffer = [0, 0x41, 0x41, 0x41, 0x20, 0, 0, 0 :: byte]\<rparr>"
  have h: "enc_step (replicate 10 0x41) ?st = Inr ?st'" by code_simp
  have f: "findMatch (replicate 10 0x41) 3 (currentWindowSize 3)
         (currentMaxMatchLen (replicate 10 0x41) 3) = Some (3, 3)" by code_simp
  from token_invariant[OF h] f h show ?thesis by simp
qed

section \<open>The worked example\<close>

text \<open>
  Claim C3, as stated: ten bytes 0x41 are encoded as three literals and one copy of offset 1
  and length 7, a stream of 6 bytes. The encoder does not do that: at position 3 the match
  finder looks for the pattern inside the three bytes before the position only, so the
  longest match there has length 3, not 7, and the stream has 8 bytes.
\<close>

theorem worked_example_counterexample:
  "findMatch (replicate 10 0x41) 3 (currentWindowSize 3)
      (currentMaxMatchLen (replicate 10 0x41) 3) \<noteq> Some (1, 7) \<and>
   coreCompressV1 (replicate 10 0x41) \<noteq> Inr [0x10, 0x41, 0x41, 0x41, 0x04, 0x00] \<and>
   map_sum id length (coreCompressV1 (replicate 10 0x41)) \<noteq> Inr 6"
  by code_simp

text \<open>
  Claim C3, amended: ten bytes 0x41 are encoded as three literals, a copy of offset 3 and
  length 3, and a copy of offset 4 and length 4: a stream of 8 bytes (one control byte
  0x18, three literal bytes, two copies of two bytes). Decoding that stream with target
  size 10 gives the ten bytes back, and so does decoding the 6-byte stream of three
  literals and one copy of offset 1 and length 7.
\<close>

theorem worked_example_amended:
  "coreCompressV1 (replicate 10 0x41) = Inr [0x18, 0x41, 0x41, 0x41, 0x20, 0x00, 0x31, 0x00] \<and>
   findMatch (replicate 10 0x41) 3 (currentWindowSize 3)
      (currentMaxMatchLen (replicate 10 0x41) 3) = Some (3, 3) \<and>
   findMatch (replicate 10 0x41) 6 (currentWindowSize 6)
      (currentMaxMatchLen (replicate 10 0x41) 6) = Some (4, 4) \<and>
   lzssSimpleDecompress [0x18, 0x41, 0x41, 0x41, 0x20, 0x00, 0x31, 0x00] 10
     = Inr (replicate 10 0x41) \<and>
   lzssSimpleDecompress [0x10, 0x41, 0x41, 0x41, 0x04, 0x00] 10 = Inr (replicate 10 0x41)"
  by code_simp

section \<open>Alignment of the container\<close>

lemma pad_mod: "(n + (fileAlignment - n mod fileAlignment)) mod fileAlignment = 0"
proof -
  define q r where "q = n div 2048" and "r = n mod 2048"
  have r: "r < 2048" and n: "n = 2048 * q + r" by (simp_all add: q_def r_def)
  have "n + (2048 - r) = (q + 1) * 2048" using r n by simp
  then have "(n + (2048 - r)) mod 2048 = 0" by (metis mod_mult_self2_is_0)
  then show ?thesis by (simp add: fileAlignment_def r_def)
qed

lemma compressAndPad_length:
  assumes "compressAndPadToPCMP xs = Inr out"
  shows "length out mod fileAlignment = 0"
proof -
  from assms obtain cs where cs: "coreCompressV1 xs = Inr cs"
    by (auto simp: compressAndPadToPCMP_def Let_def split: sum.splits)
  define h where "h = signature @ replicate 16 0 @ PutUint32 (word_of_nat (length xs)) @
     PutUint32 (word_of_nat (length cs)) @ replicate 4 0"
  define body where "body = h @ cs"
  have out: "out = (if length body mod fileAlignment \<noteq> 0
                    then body @ replicate (fileAlignment - length body mod fileAlignment) 0
                    else body)"
    using assms unfolding compressAndPadToPCMP_def cs writePCMPHeader_eq Let_def body_def h_def
    by (simp add: fileAlignment_def split: if_splits)
  show ?thesis
  proof (cases "length body mod fileAlignment = 0")
    case True
    then show ?thesis by (simp add: out)
  next
    case False
    then show ?thesis using pad_mod[of "length body"] by (simp add: out)
  qed
qed

text \<open>
  Claim C8: a container returned by \<^verbatim>\<open>compressAndPadToPCMP\<close> has a length that is a multiple
  of 2048; for the empty input it is the signature followed by 2044 zero bytes, 2048 bytes
  in all, whose two size fields are 0.
\<close>

theorem container_aligned:
  "(compressAndPadToPCMP inputData = Inr out \<longrightarrow> length out mod 2048 = 0) \<and>
   compressAndPadToPCMP [] = Inr (signature @ replicate 2044 0) \<and>
   length (signature @ replicate 2044 (0 :: byte)) = 2048 \<and>
   Uint32 (slice (signature @ replicate 2044 0) 0x14 0x18) = 0 \<and>
   Uint32 (slice (signature @ replicate 2044 0) 0x18 0x1C) = 0"
proof -
  have a: "compressAndPadToPCMP inputData = Inr out \<longrightarrow> length out mod 2048 = 0"
    using compressAndPad_length[of inputData out] by (simp add: fileAlignment_def)
  have b: "compressAndPadToPCMP [] = Inr (signature @ replicate 2044 0)"
    by code_simp
  have c: "length (signature @ replicate 2044 (0 :: byte)) = 2048"
    by (simp add: signature_def)
  have d: "Uint32 (slice (signature @ replicate 2044 0) 0x14 0x18) = 0"
    "Uint32 (slice (signature @ replicate 2044 0) 0x18 0x1C) = 0"
    by code_simp+
  from a b c d show ?thesis by blast
qed

theorem container_aligned_witness:
  "compressAndPadToPCMP (replicate 10 0x41)
     = Inr (signature @ replicate 16 0 @ [10, 0, 0, 0] @ [8, 0, 0, 0] @ replicate 4 0 @
            [0x18, 0x41, 0x41, 0x41, 0x20, 0x00, 0x31, 0x00] @ replicate 2008 0) \<and>
   length (signature @ replicate 16 0 @ [10, 0, 0, 0] @ [8, 0, 0, 0] @ replicate 4 0 @
            [0x18, 0x41, 0x41, 0x41, 0x20, 0x00, 0x31, 0x00 :: byte] @ replicate 2008 0) mod 2048 = 0"
proof -
  have h: "compressAndPadToPCMP (replicate 10 0x41)
     = Inr (signature @ replicate 16 0 @ [10, 0, 0, 0] @ [8, 0, 0, 0] @ replicate 4 0 @
            [0x18, 0x41, 0x41, 0x41, 0x20, 0x00, 0x31, 0x00] @ replicate 2008 0)"
    by code_simp
  from container_aligned[of "replicate 10 0x41"] h show ?thesis by blast
qed

section \<open>The decoder\<close>

lemma unat_len [simp]:
  "length out \<le> unat (n :: uint32) \<Longrightarrow> unat (word_of_nat (length out) :: uint32) = length out"
proof -
  assume a: "length out \<le> unat n"
  have "unat n < 2 ^ 32" using unsigned_less[of n, where ?'a=nat] by simp
  with a have "length out < 2 ^ 32" by simp
  then show ?thesis by (simp add: unat_of_nat)
qed

lemma len_less_iff:
  "length out \<le> unat (n :: uint32) \<Longrightarrow>
     (word_of_nat (length out) :: uint32) < n \<longleftrightarrow> length out < unat n"
  by (simp add: word_less_nat_alt)

lemma len_ge_iff:
  "length out \<le> unat (n :: uint32) \<Longrightarrow>
     n \<le> (word_of_nat (length out) :: uint32) \<longleftrightarrow> length out = unat n"
  by (auto simp: word_le_nat_alt)

lemma copy_loop_length:
  "length out \<le> unat n \<Longrightarrow> length (copy_loop k off n out) = min (length out + k) (unat n)"
proof (induction k arbitrary: out)
  case 0
  then show ?case by simp
next
  case (Suc k)
  show ?case
  proof (cases "length out = unat n")
    case True
    then show ?thesis using Suc.prems by (simp add: len_ge_iff)
  next
    case False
    then have lt: "length out < unat n" using Suc.prems by simp
    then have "length (out @ [x]) \<le> unat n" for x by simp
    from Suc.IH[OF this] lt Suc.prems False show ?thesis
      by (simp add: len_ge_iff)
  qed
qed

lemma copy_loop_prefix:
  "length out \<le> unat n \<Longrightarrow> take (length out) (copy_loop k off n out) = out"
proof (induction k arbitrary: out)
  case 0
  then show ?case by simp
next
  case (Suc k)
  show ?case
  proof (cases "length out = unat n")
    case True
    then show ?thesis using Suc.prems by (simp add: len_ge_iff)
  next
    case False
    then have lt: "length out < unat n" using Suc.prems by simp
    have *: "take (length out) r = out" if "take (length (out @ [x])) r = out @ [x]" for r x
    proof -
      have "take (length out) r = take (length out) (take (length (out @ [x])) r)" by simp
      also have "\<dots> = out" unfolding that by simp
      finally show ?thesis .
    qed
    have l: "length (out @ [x]) \<le> unat n" for x using lt by simp
    show ?thesis
      using False Suc.prems *[OF Suc.IH[OF l]]
      by (simp add: len_ge_iff)
  qed
qed

lemma copy_loop_nth:
  assumes "length out \<le> unat n" "1 \<le> off" "length out \<le> j" "j < length (copy_loop k off n out)"
  shows "copy_loop k off n out ! j = (if off > j then 0 else copy_loop k off n out ! (j - off))"
  using assms
proof (induction k arbitrary: out)
  case 0
  then show ?case by simp
next
  case (Suc k)
  have neq: "length out \<noteq> unat n" using Suc.prems by (auto simp: len_ge_iff)
  then have lt: "length out < unat n" using Suc.prems by simp
  define x where "x = (if off > length out then 0 else out ! (length out - off))"
  define out' where "out' = out @ [x]"
  have step: "copy_loop (Suc k) off n out = copy_loop k off n out'"
    using neq Suc.prems(1) by (simp add: len_ge_iff out'_def x_def)
  have l': "length out' \<le> unat n" using lt by (simp add: out'_def)
  have pre: "take (length out') (copy_loop k off n out') = out'"
    by (rule copy_loop_prefix[OF l'])
  have nth_pre: "copy_loop k off n out' ! i = out' ! i" if "i < length out'" for i
    using that pre by (metis nth_take)
  show ?case
  proof (cases "j = length out")
    case True
    have "copy_loop k off n out' ! j = x" using nth_pre[of j] True by (simp add: out'_def)
    moreover have "copy_loop k off n out' ! (j - off) = out ! (length out - off)" if "off \<le> j"
    proof -
      have lt': "length out - off < length out" using that True Suc.prems(2) by arith
      then have "j - off < length out'" using True by (simp add: out'_def)
      from nth_pre[OF this] lt' True show ?thesis by (simp add: out'_def nth_append)
    qed
    ultimately show ?thesis unfolding step using True by (auto simp: x_def)
  next
    case False
    then have "length out' \<le> j" using Suc.prems(3) by (simp add: out'_def)
    from Suc.IH[OF l' Suc.prems(2) this] Suc.prems(4) show ?thesis
      unfolding step by simp
  qed
qed

lemma decodeOffset_pos: "1 \<le> decodeOffset byte1 byte2"
  by (simp add: decodeOffset_def)

lemma copyToken_ok:
  assumes "streamIdx d + 1 < length cs"
  shows "copyToken cs n d =
     Inr (Continue (d\<lparr>streamIdx := streamIdx d + 2,
                       outBuffer := copy_loop (decodeCount (cs ! streamIdx d))
                         (decodeOffset (cs ! streamIdx d) (cs ! (streamIdx d + 1))) n
                         (outBuffer d)\<rparr>))"
  using assms by (simp add: copyToken_def Let_def)

text \<open>
  Claim C6: a copy of \<open>k\<close> bytes at offset \<open>off\<close> onto an output \<open>out\<close> that has not passed
  the target size \<open>n\<close> never fails: it keeps \<open>out\<close>, appends \<open>k\<close> bytes or as many as the
  target leaves room for, and each appended byte, at position \<open>j\<close> of the result, is zero
  when the offset reaches before the start of the output (\<open>off > j\<close>) and the byte \<open>off\<close>
  positions earlier otherwise, as it stands when that byte is produced (so a copy with an
  offset smaller than its length repeats its run). The offset the decoder reads is at least
  1, and the copy branch fails only when fewer than two bytes of the stream are left.
\<close>

theorem copy_zero_fill:
  assumes "length out \<le> unat n" and "1 \<le> off"
  shows "take (length out) (copy_loop k off n out) = out \<and>
         length (copy_loop k off n out) = min (length out + k) (unat n) \<and>
         (\<forall>j. length out \<le> j \<and> j < length (copy_loop k off n out) \<longrightarrow>
              copy_loop k off n out ! j
                = (if off > j then 0 else copy_loop k off n out ! (j - off))) \<and>
         1 \<le> decodeOffset byte1 byte2 \<and>
         (streamIdx d + 1 < length cs \<longrightarrow>
            copyToken cs n d =
              Inr (Continue (d\<lparr>streamIdx := streamIdx d + 2,
                                outBuffer := copy_loop (decodeCount (cs ! streamIdx d))
                                  (decodeOffset (cs ! streamIdx d) (cs ! (streamIdx d + 1))) n
                                  (outBuffer d)\<rparr>)))"
  using copy_loop_prefix[OF assms(1)] copy_loop_length[OF assms(1)]
    copy_loop_nth[OF assms] decodeOffset_pos copyToken_ok
  by blast

theorem copy_zero_fill_witness:
  "length [7 :: byte] \<le> unat (100 :: uint32) \<and> (1 :: nat) \<le> 2 \<and>
   copy_loop 4 2 100 [7] = [7, 0, 7, 0, 7] \<and>
   copy_loop 4 2 100 [7] ! 1 = 0 \<and>
   copy_loop 4 2 100 [7] ! 4 = copy_loop 4 2 100 [7] ! 2 \<and>
   decodeOffset 0x11 0 = 2 \<and> decodeCount 0x11 = 4 \<and>
   copyToken [0x80, 0x11, 0] 100
       \<lparr>streamIdx = 1, controlByte = 0, bitsLeft = 7, outBuffer = [7]\<rparr>
     = Inr (Continue \<lparr>streamIdx = 3, controlByte = 0, bitsLeft = 7,
                       outBuffer = [7, 0, 7, 0, 7]\<rparr>) \<and>
   lzssSimpleDecompress [0x80, 0x21, 0x00] 4 = Inr [0, 0, 0, 0]"
proof -
  have h1: "length [7 :: byte] \<le> unat (100 :: uint32)" by simp
  have h2: "(1 :: nat) \<le> 2" by simp
  have e: "copy_loop 4 2 100 [7] = [7, 0, 7, 0, 7]" by code_simp
  have l: "length (copy_loop 4 2 100 [7]) = 5" unfolding e by simp
  note T = copy_zero_fill[OF h1 h2, of 4 0 0
      "\<lparr>streamIdx = 1, controlByte = 0, bitsLeft = 7, outBuffer = [7]\<rparr>" "[0x80, 0x11, 0]"]
  from T l have a: "copy_loop 4 2 100 [7] ! 1 = 0" by simp
  from T l have b: "copy_loop 4 2 100 [7] ! 4 = copy_loop 4 2 100 [7] ! 2" by simp
  have c: "decodeOffset 0x11 0 = 2" "decodeCount 0x11 = 4" by code_simp+
  from T have d: "copyToken [0x80, 0x11, 0] 100
       \<lparr>streamIdx = 1, controlByte = 0, bitsLeft = 7, outBuffer = [7]\<rparr>
     = Inr (Continue \<lparr>streamIdx = 3, controlByte = 0, bitsLeft = 7,
                       outBuffer = [7, 0, 7, 0, 7]\<rparr>)"
    by (simp add: c e)
  have f: "lzssSimpleDecompress [0x80, 0x21, 0x00] 4 = Inr [0, 0, 0, 0]" by code_simp
  from h1 h2 e a b c d f show ?thesis by blast
qed

lemma copyToken_len:
  assumes "copyToken cs n d = Inr r" "length (outBuffer d) \<le> unat n"
  shows "\<exists>d'. r = Continue d' \<and> length (outBuffer d') \<le> unat n"
  using assms by (auto simp: copyToken_def Let_def copy_loop_length split: if_splits)

lemma literalToken_len:
  assumes "literalToken cs n d = Inr r" "length (outBuffer d) \<le> unat n"
    "(word_of_nat (length (outBuffer d)) :: uint32) < n"
  shows "\<exists>d'. r = Continue d' \<and> length (outBuffer d') \<le> unat n"
proof -
  from assms(2,3) have "length (outBuffer d) < unat n" by (simp add: len_less_iff)
  then have "\<not> n \<le> (word_of_nat (length (outBuffer d)) :: uint32)"
    using assms(3) by simp
  with assms(1) \<open>length (outBuffer d) < unat n\<close> show ?thesis
    by (auto simp: literalToken_def Let_def split: if_splits)
qed

lemma dec_step_len:
  assumes "dec_step cs n d = Inr r" "length (outBuffer d) \<le> unat n"
    "(word_of_nat (length (outBuffer d)) :: uint32) < n"
  shows "\<exists>d'. r = Continue d' \<and> length (outBuffer d') \<le> unat n"
  using assms
  by (auto simp: dec_step_def Let_def split: if_splits
      dest!: copyToken_len literalToken_len)

lemma dec_step_errors:
  assumes "dec_step cs n d = Inl e"
  shows "e = errStreamPrematureEnd \<or> e = errPrematureEndCopy \<or> e = errPrematureEndLiteral"
  using assms
  by (auto simp: dec_step_def copyToken_def literalToken_def Let_def split: if_splits)

lemma dec_loop_length:
  assumes "dec_loop cs n d = Inr d'" "length (outBuffer d) \<le> unat n"
  shows "length (outBuffer d') = unat n"
  using assms
proof (induction cs n d rule: dec_loop.induct)
  case (1 cs n d)
  show ?case
  proof (cases "(word_of_nat (length (outBuffer d)) :: uint32) < n")
    case False
    with "1.prems" show ?thesis
      by (subst (asm) dec_loop.simps) (auto simp: len_less_iff)
  next
    case True
    from "1.prems"(1) True obtain r where r: "dec_step cs n d = Inr r"
      by (subst (asm) dec_loop.simps) (auto split: sum.splits)
    from dec_step_len[OF r "1.prems"(2) True] obtain d1 where
      d1: "r = Continue d1" "length (outBuffer d1) \<le> unat n" by blast
    from "1.prems"(1) True r d1 have "dec_loop cs n d1 = Inr d'"
      by (subst (asm) dec_loop.simps) simp
    from "1.IH"[OF True r[unfolded d1(1)] refl this d1(2)] show ?thesis .
  qed
qed

lemma dec_loop_errors:
  assumes "dec_loop cs n d = Inl e"
  shows "e = errStreamPrematureEnd \<or> e = errPrematureEndCopy \<or> e = errPrematureEndLiteral"
  using assms
proof (induction cs n d rule: dec_loop.induct)
  case (1 cs n d)
  from "1.prems" have True: "(word_of_nat (length (outBuffer d)) :: uint32) < n"
    by (subst (asm) dec_loop.simps) (auto split: if_splits)
  show ?case
  proof (cases "dec_step cs n d")
    case (Inl e')
    with "1.prems" True have "e = e'" by (subst (asm) dec_loop.simps) simp
    with dec_step_errors[OF Inl] show ?thesis by simp
  next
    case (Inr r)
    show ?thesis
    proof (cases r)
      case (Break d1)
      with "1.prems" True Inr show ?thesis by (subst (asm) dec_loop.simps) simp
    next
      case (Continue d1)
      with "1.prems" True Inr have "dec_loop cs n d1 = Inl e"
        by (subst (asm) dec_loop.simps) simp
      from "1.IH"[OF True Inr[unfolded Continue] refl this] show ?thesis .
    qed
  qed
qed

lemma dec_step_truncate:
  assumes "dec_step cs n d = Inr (Continue d1)" "streamIdx d \<le> k" "k \<le> length cs"
    "(word_of_nat (length (outBuffer d)) :: uint32) < n"
  shows "if streamIdx d1 \<le> k then dec_step (take k cs) n d = Inr (Continue d1)
         else \<exists>e. dec_step (take k cs) n d = Inl e"
proof -
  have l: "length (take k cs) = k" using assms(3) by simp
  show ?thesis
    using assms unfolding dec_step_def copyToken_def literalToken_def Let_def l
    by (auto split: if_splits)
qed

lemma dec_step_streamIdx:
  assumes "dec_step cs n d = Inr (Continue d1)" "streamIdx d \<le> length cs"
  shows "streamIdx d \<le> streamIdx d1 \<and> streamIdx d1 \<le> length cs"
  using assms unfolding dec_step_def copyToken_def literalToken_def Let_def
  by (auto split: if_splits)

lemma dec_loop_truncate:
  assumes "dec_loop cs n d = Inr dF" "streamIdx d \<le> k" "k < streamIdx dF" "k \<le> length cs"
    "length (outBuffer d) \<le> unat n"
  shows "\<exists>e. dec_loop (take k cs) n d = Inl e"
  using assms
proof (induction cs n d rule: dec_loop.induct)
  case (1 cs n d)
  show ?case
  proof (cases "(word_of_nat (length (outBuffer d)) :: uint32) < n")
    case False
    with "1.prems"(1) have "dF = d" by (subst (asm) dec_loop.simps) simp
    with "1.prems"(2,3) show ?thesis by simp
  next
    case True
    from "1.prems"(1) True obtain r where r: "dec_step cs n d = Inr r"
      by (subst (asm) dec_loop.simps) (auto split: sum.splits)
    from dec_step_len[OF r "1.prems"(5) True] obtain d1 where
      d1: "r = Continue d1" "length (outBuffer d1) \<le> unat n" by blast
    from "1.prems"(1) True r d1 have loop1: "dec_loop cs n d1 = Inr dF"
      by (subst (asm) dec_loop.simps) simp
    note T = dec_step_truncate[OF r[unfolded d1(1)] "1.prems"(2,4) True]
    show ?thesis
    proof (cases "streamIdx d1 \<le> k")
      case le: True
      with T have s: "dec_step (take k cs) n d = Inr (Continue d1)" by simp
      from "1.IH"[OF True r[unfolded d1(1)] refl loop1 le "1.prems"(3,4) d1(2)]
      obtain e where "dec_loop (take k cs) n d1 = Inl e" by blast
      with s True show ?thesis by (subst dec_loop.simps) simp
    next
      case False
      with T obtain e where "dec_step (take k cs) n d = Inl e" by auto
      with True show ?thesis by (subst dec_loop.simps) simp
    qed
  qed
qed

lemma dec_loop_streamIdx:
  assumes "dec_loop cs n d = Inr dF" "streamIdx d \<le> length cs" "length (outBuffer d) \<le> unat n"
  shows "streamIdx d \<le> streamIdx dF \<and> streamIdx dF \<le> length cs"
  using assms
proof (induction cs n d rule: dec_loop.induct)
  case (1 cs n d)
  show ?case
  proof (cases "(word_of_nat (length (outBuffer d)) :: uint32) < n")
    case False
    with "1.prems"(1) have "dF = d" by (subst (asm) dec_loop.simps) simp
    with "1.prems"(2) show ?thesis by simp
  next
    case True
    from "1.prems"(1) True obtain r where r: "dec_step cs n d = Inr r"
      by (subst (asm) dec_loop.simps) (auto split: sum.splits)
    from dec_step_len[OF r "1.prems"(3) True] obtain d1 where
      d1: "r = Continue d1" "length (outBuffer d1) \<le> unat n" by blast
    from "1.prems"(1) True r d1 have loop1: "dec_loop cs n d1 = Inr dF"
      by (subst (asm) dec_loop.simps) simp
    note s = dec_step_streamIdx[OF r[unfolded d1(1)] "1.prems"(2)]
    from "1.IH"[OF True r[unfolded d1(1)] refl loop1 _ d1(2)] s show ?thesis by simp
  qed
qed

lemma dec_loop_enough:
  assumes "dec_loop cs n d = Inr dF" "streamIdx dF \<le> k" "k \<le> length cs"
    "streamIdx d \<le> length cs" "length (outBuffer d) \<le> unat n"
  shows "dec_loop (take k cs) n d = Inr dF"
  using assms
proof (induction cs n d rule: dec_loop.induct)
  case (1 cs n d)
  show ?case
  proof (cases "(word_of_nat (length (outBuffer d)) :: uint32) < n")
    case False
    with "1.prems"(1) have "dF = d" by (subst (asm) dec_loop.simps) simp
    with False show ?thesis by (subst dec_loop.simps) simp
  next
    case True
    from "1.prems"(1) True obtain r where r: "dec_step cs n d = Inr r"
      by (subst (asm) dec_loop.simps) (auto split: sum.splits)
    from dec_step_len[OF r "1.prems"(5) True] obtain d1 where
      d1: "r = Continue d1" "length (outBuffer d1) \<le> unat n" by blast
    from "1.prems"(1) True r d1 have loop1: "dec_loop cs n d1 = Inr dF"
      by (subst (asm) dec_loop.simps) simp
    note s = dec_step_streamIdx[OF r[unfolded d1(1)] "1.prems"(4)]
    from dec_loop_streamIdx[OF loop1 _ d1(2)] s
    have m: "streamIdx d1 \<le> streamIdx dF" by simp
    with s "1.prems"(2) have le: "streamIdx d \<le> k" "streamIdx d1 \<le> k" by simp_all
    from dec_step_truncate[OF r[unfolded d1(1)] le(1) "1.prems"(3) True] le(2)
    have st: "dec_step (take k cs) n d = Inr (Continue d1)" by simp
    from "1.IH"[OF True r[unfolded d1(1)] refl loop1 "1.prems"(2,3) _ d1(2)] s
    have "dec_loop (take k cs) n d1 = Inr dF" by simp
    with st True show ?thesis by (subst dec_loop.simps) simp
  qed
qed

lemma decompress_truncated:
  assumes "lzssSimpleDecompress cs n = Inr out"
  shows "lzssConsumed cs n \<le> length cs"
    and "lzssConsumed cs n \<le> k \<or> n = 0 \<Longrightarrow> lzssSimpleDecompress (take k cs) n = Inr out"
    and "k < lzssConsumed cs n \<Longrightarrow> n \<noteq> 0 \<Longrightarrow> \<exists>e. lzssSimpleDecompress (take k cs) n = Inl e"
proof -
  let ?d0 = "\<lparr>streamIdx = 1, controlByte = cs ! 0, bitsLeft = 8, outBuffer = []\<rparr>"
  show c: "lzssConsumed cs n \<le> length cs"
  proof (cases "cs = []")
    case True
    then show ?thesis by (simp add: lzssConsumed_def)
  next
    case False
    with assms obtain dF where dF: "dec_loop cs n ?d0 = Inr dF"
      by (auto simp: lzssSimpleDecompress_def split: sum.splits)
    from dec_loop_streamIdx[OF dF] False have "streamIdx dF \<le> length cs"
      by (cases cs) auto
    with dF False show ?thesis by (simp add: lzssConsumed_def)
  qed
  show "lzssSimpleDecompress (take k cs) n = Inr out" if "lzssConsumed cs n \<le> k \<or> n = 0"
  proof (cases "k \<ge> length cs")
    case True
    with assms show ?thesis by simp
  next
    case k: False
    then have ne: "cs \<noteq> []" by auto
    with assms obtain dF where dF: "dec_loop cs n ?d0 = Inr dF" "out = outBuffer dF"
      by (auto simp: lzssSimpleDecompress_def split: sum.splits)
    show ?thesis
    proof (cases "n = 0")
      case True
      with dF have "dF = ?d0" by (subst (asm) dec_loop.simps) simp
      with dF True show ?thesis
        by (auto simp: lzssSimpleDecompress_def dec_loop.simps[of _ 0])
    next
      case False
      with that dF ne have le: "streamIdx dF \<le> k" by (simp add: lzssConsumed_def)
      from dec_loop_streamIdx[OF dF(1)] ne have "1 \<le> streamIdx dF" by (cases cs) auto
      with le have k1: "1 \<le> k" by simp
      have "dec_loop (take k cs) n ?d0 = Inr dF"
        using dec_loop_enough[OF dF(1) le] k ne by (cases cs) auto
      moreover have "take k cs ! 0 = cs ! 0" using k1 by simp
      moreover have "(length (take k cs) = 0) = False" using k1 ne by (cases cs) auto
      ultimately show ?thesis unfolding lzssSimpleDecompress_def by (simp only: dF(2) if_False sum.case)
    qed
  qed
  show "\<exists>e. lzssSimpleDecompress (take k cs) n = Inl e" if "k < lzssConsumed cs n" "n \<noteq> 0"
  proof (cases "k = 0")
    case True
    with that(2) show ?thesis by (simp add: lzssSimpleDecompress_def word_greater_zero_iff)
  next
    case False
    from that(1) have ne: "cs \<noteq> []" by (auto simp: lzssConsumed_def)
    with assms obtain dF where dF: "dec_loop cs n ?d0 = Inr dF"
      by (auto simp: lzssSimpleDecompress_def split: sum.splits)
    with that(1) ne have lt: "k < streamIdx dF" by (simp add: lzssConsumed_def)
    have kl: "k \<le> length cs" using c that(1) by simp
    from dec_loop_truncate[OF dF _ lt kl] False
    obtain e where "dec_loop (take k cs) n ?d0 = Inl e" by auto
    moreover have "take k cs ! 0 = cs ! 0" using False by simp
    moreover have "(length (take k cs) = 0) = False" using False ne by (cases cs) auto
    ultimately have "lzssSimpleDecompress (take k cs) n = Inl e"
      unfolding lzssSimpleDecompress_def by (simp only: if_False sum.case)
    then show ?thesis by blast
  qed
qed

lemma decompress_errors:
  assumes "lzssSimpleDecompress cs n = Inl e"
  shows "(e = errStreamEmpty \<or> e = errStreamPrematureEnd \<or> e = errPrematureEndCopy \<or>
          e = errPrematureEndLiteral) \<and>
         (e = errStreamEmpty) = (cs = [] \<and> n \<noteq> 0)"
proof (cases "cs = []")
  case True
  with assms show ?thesis
    by (auto simp: lzssSimpleDecompress_def word_greater_zero_iff split: if_splits)
next
  case False
  let ?d = "\<lparr>streamIdx = 1, controlByte = cs ! 0, bitsLeft = 8, outBuffer = []\<rparr>"
  from assms False have "dec_loop cs n ?d = Inl e"
    by (auto simp: lzssSimpleDecompress_def split: sum.splits)
  from dec_loop_errors[OF this] False show ?thesis by auto
qed

lemma decompress_length:
  assumes "lzssSimpleDecompress cs n = Inr out"
  shows "length out = unat n"
proof (cases "cs = []")
  case True
  with assms show ?thesis
    by (auto simp: lzssSimpleDecompress_def word_greater_zero_iff split: if_splits)
next
  case False
  let ?d = "\<lparr>streamIdx = 1, controlByte = cs ! 0, bitsLeft = 8, outBuffer = []\<rparr>"
  from assms False obtain d' where d': "dec_loop cs n ?d = Inr d'" "out = outBuffer d'"
    by (auto simp: lzssSimpleDecompress_def split: sum.splits)
  from dec_loop_length[OF d'(1)] d'(2) show ?thesis by simp
qed

lemma dec_step_exhausted:
  assumes "(word_of_nat (length (outBuffer d)) :: uint32) < n"
  shows "bitsLeft d = 1 \<Longrightarrow> streamIdx d = length cs
           \<Longrightarrow> dec_step cs n d = Inl errStreamPrematureEnd"
    and "controlByte d AND 0x80 \<noteq> 0 \<Longrightarrow> bitsLeft d \<noteq> 1 \<Longrightarrow> streamIdx d \<le> length cs
           \<Longrightarrow> length cs < streamIdx d + 2 \<Longrightarrow> dec_step cs n d = Inl errPrematureEndCopy"
    and "controlByte d AND 0x80 \<noteq> 0 \<Longrightarrow> bitsLeft d = 1 \<Longrightarrow> streamIdx d < length cs
           \<Longrightarrow> length cs < streamIdx d + 3 \<Longrightarrow> dec_step cs n d = Inl errPrematureEndCopy"
    and "controlByte d AND 0x80 = 0 \<Longrightarrow> bitsLeft d \<noteq> 1 \<Longrightarrow> streamIdx d = length cs
           \<Longrightarrow> dec_step cs n d = Inl errPrematureEndLiteral"
    and "controlByte d AND 0x80 = 0 \<Longrightarrow> bitsLeft d = 1 \<Longrightarrow> streamIdx d + 1 = length cs
           \<Longrightarrow> dec_step cs n d = Inl errPrematureEndLiteral"
  using assms
  by (auto simp: dec_step_def copyToken_def literalToken_def Let_def)

text \<open>
  Claim C7: \<^verbatim>\<open>lzssSimpleDecompress\<close> returns either an output of exactly the target length
  or one of the errors for an empty or prematurely ended stream, never a shorter output.
  When it returns an output, it has read \<open>lzssConsumed\<close> bytes of the stream, and the
  stream cut before that many bytes is rejected with one of these errors (unless the
  target is 0), while the stream cut anywhere later gives the same output. The error for
  an empty stream is returned exactly for an empty stream with a non-zero target; within
  the loop, a missing control byte gives \<^verbatim>\<open>errStreamPrematureEnd\<close>, fewer than two bytes
  for a signalled copy \<^verbatim>\<open>errPrematureEndCopy\<close>, and no byte for a signalled literal
  \<^verbatim>\<open>errPrematureEndLiteral\<close>.
\<close>

theorem truncation_never_silent:
  "(case lzssSimpleDecompress compressedStream uncompressedSize of
      Inr out \<Rightarrow>
        length out = unat uncompressedSize \<and>
        lzssConsumed compressedStream uncompressedSize \<le> length compressedStream \<and>
        (\<forall>k. if lzssConsumed compressedStream uncompressedSize \<le> k \<or> uncompressedSize = 0
             then lzssSimpleDecompress (take k compressedStream) uncompressedSize = Inr out
             else \<exists>e. lzssSimpleDecompress (take k compressedStream) uncompressedSize = Inl e \<and>
                      (e = errStreamEmpty \<or> e = errStreamPrematureEnd \<or>
                       e = errPrematureEndCopy \<or> e = errPrematureEndLiteral))
    | Inl e \<Rightarrow>
        (e = errStreamEmpty \<or> e = errStreamPrematureEnd \<or> e = errPrematureEndCopy \<or>
         e = errPrematureEndLiteral) \<and>
        (e = errStreamEmpty) = (compressedStream = [] \<and> uncompressedSize \<noteq> 0)) \<and>
   ((word_of_nat (length (outBuffer d)) :: uint32) < uncompressedSize \<longrightarrow>
      (bitsLeft d = 1 \<and> streamIdx d = length compressedStream
         \<longrightarrow> dec_step compressedStream uncompressedSize d = Inl errStreamPrematureEnd) \<and>
      (controlByte d AND 0x80 \<noteq> 0 \<and> bitsLeft d \<noteq> 1 \<and> streamIdx d \<le> length compressedStream \<and>
       length compressedStream < streamIdx d + 2
         \<longrightarrow> dec_step compressedStream uncompressedSize d = Inl errPrematureEndCopy) \<and>
      (controlByte d AND 0x80 \<noteq> 0 \<and> bitsLeft d = 1 \<and> streamIdx d < length compressedStream \<and>
       length compressedStream < streamIdx d + 3
         \<longrightarrow> dec_step compressedStream uncompressedSize d = Inl errPrematureEndCopy) \<and>
      (controlByte d AND 0x80 = 0 \<and> bitsLeft d \<noteq> 1 \<and> streamIdx d = length compressedStream
         \<longrightarrow> dec_step compressedStream uncompressedSize d = Inl errPrematureEndLiteral) \<and>
      (controlByte d AND 0x80 = 0 \<and> bitsLeft d = 1 \<and> streamIdx d + 1 = length compressedStream
         \<longrightarrow> dec_step compressedStream uncompressedSize d = Inl errPrematureEndLiteral))"
proof -
  let ?cs = compressedStream and ?n = uncompressedSize
  have A: "case lzssSimpleDecompress ?cs ?n of
      Inr out \<Rightarrow>
        length out = unat ?n \<and> lzssConsumed ?cs ?n \<le> length ?cs \<and>
        (\<forall>k. if lzssConsumed ?cs ?n \<le> k \<or> ?n = 0
             then lzssSimpleDecompress (take k ?cs) ?n = Inr out
             else \<exists>e. lzssSimpleDecompress (take k ?cs) ?n = Inl e \<and>
                      (e = errStreamEmpty \<or> e = errStreamPrematureEnd \<or>
                       e = errPrematureEndCopy \<or> e = errPrematureEndLiteral))
    | Inl e \<Rightarrow>
        (e = errStreamEmpty \<or> e = errStreamPrematureEnd \<or> e = errPrematureEndCopy \<or>
         e = errPrematureEndLiteral) \<and>
        (e = errStreamEmpty) = (?cs = [] \<and> ?n \<noteq> 0)"
  proof (cases "lzssSimpleDecompress ?cs ?n")
    case (Inl e)
    show ?thesis unfolding Inl sum.case by (rule decompress_errors[OF Inl])
  next
    case (Inr out)
    have "if lzssConsumed ?cs ?n \<le> k \<or> ?n = 0
             then lzssSimpleDecompress (take k ?cs) ?n = Inr out
             else \<exists>e. lzssSimpleDecompress (take k ?cs) ?n = Inl e \<and>
                      (e = errStreamEmpty \<or> e = errStreamPrematureEnd \<or>
                       e = errPrematureEndCopy \<or> e = errPrematureEndLiteral)" for k
    proof (cases "lzssConsumed ?cs ?n \<le> k \<or> ?n = 0")
      case True
      with decompress_truncated(2)[OF Inr True] show ?thesis by simp
    next
      case False
      then have "k < lzssConsumed ?cs ?n" "?n \<noteq> 0" by simp_all
      from decompress_truncated(3)[OF Inr this] obtain e where
        e: "lzssSimpleDecompress (take k ?cs) ?n = Inl e" by blast
      from decompress_errors[OF e] e False show ?thesis by auto
    qed
    with decompress_length[OF Inr] decompress_truncated(1)[OF Inr] Inr show ?thesis by simp
  qed
  from A dec_step_exhausted[of d ?n ?cs] show ?thesis by blast
qed

theorem truncation_never_silent_witness:
  "lzssSimpleDecompress [0x18, 0x41, 0x41, 0x41, 0x20, 0x00, 0x31, 0x00] 10
     = Inr (replicate 10 0x41) \<and>
   length (replicate 10 (0x41 :: byte)) = unat (10 :: uint32) \<and>
   lzssConsumed [0x18, 0x41, 0x41, 0x41, 0x20, 0x00, 0x31, 0x00] 10 = 8 \<and>
   lzssSimpleDecompress [0x18, 0x41, 0x41, 0x41, 0x20, 0x00, 0x31] 10 = Inl errPrematureEndCopy \<and>
   lzssSimpleDecompress [0x00, 0x41] 5 = Inl errPrematureEndLiteral \<and>
   (\<exists>e. lzssSimpleDecompress (take 5 [0x18, 0x41, 0x41, 0x41, 0x20, 0x00, 0x31, 0x00]) 10
          = Inl e) \<and>
   dec_step [0x00] 5 \<lparr>streamIdx = 1, controlByte = 0, bitsLeft = 8, outBuffer = []\<rparr>
     = Inl errPrematureEndLiteral \<and>
   dec_step [0x80, 0x00] 5 \<lparr>streamIdx = 1, controlByte = 0x80, bitsLeft = 8, outBuffer = []\<rparr>
     = Inl errPrematureEndCopy \<and>
   dec_step [0x00] 5 \<lparr>streamIdx = 1, controlByte = 0, bitsLeft = 1, outBuffer = []\<rparr>
     = Inl errStreamPrematureEnd"
proof -
  let ?cs = "[0x18, 0x41, 0x41, 0x41, 0x20, 0x00, 0x31, 0x00 :: byte]"
  note S1 = truncation_never_silent[where compressedStream = "[0x00]" and uncompressedSize = 5
      and d = "\<lparr>streamIdx = 1, controlByte = 0, bitsLeft = 8, outBuffer = []\<rparr>",
      THEN conjunct2]
  note S2 = truncation_never_silent[where compressedStream = "[0x80, 0x00]"
      and uncompressedSize = 5
      and d = "\<lparr>streamIdx = 1, controlByte = 0x80, bitsLeft = 8, outBuffer = []\<rparr>",
      THEN conjunct2]
  note S3 = truncation_never_silent[where compressedStream = "[0x00]" and uncompressedSize = 5
      and d = "\<lparr>streamIdx = 1, controlByte = 0, bitsLeft = 1, outBuffer = []\<rparr>",
      THEN conjunct2]
  from S1 have s1: "dec_step [0x00] 5
      \<lparr>streamIdx = 1, controlByte = 0, bitsLeft = 8, outBuffer = []\<rparr>
       = Inl errPrematureEndLiteral" by simp
  from S2 have s2: "dec_step [0x80, 0x00] 5
      \<lparr>streamIdx = 1, controlByte = 0x80, bitsLeft = 8, outBuffer = []\<rparr>
       = Inl errPrematureEndCopy" by simp
  from S3 have s3: "dec_step [0x00] 5
      \<lparr>streamIdx = 1, controlByte = 0, bitsLeft = 1, outBuffer = []\<rparr>
       = Inl errStreamPrematureEnd" by simp
  have h1: "lzssSimpleDecompress ?cs 10 = Inr (replicate 10 0x41)" by code_simp
  have h2: "lzssConsumed ?cs 10 = 8" by code_simp
  have h3: "lzssSimpleDecompress [0x18, 0x41, 0x41, 0x41, 0x20, 0x00, 0x31] 10
              = Inl errPrematureEndCopy" by code_simp
  have h4: "lzssSimpleDecompress [0x00, 0x41] 5 = Inl errPrematureEndLiteral" by code_simp
  have "case lzssSimpleDecompress ?cs 10 of
      Inr out \<Rightarrow>
        length out = unat (10 :: uint32) \<and>
        lzssConsumed ?cs 10 \<le> length ?cs \<and>
        (\<forall>k. if lzssConsumed ?cs 10 \<le> k \<or> (10 :: uint32) = 0
             then lzssSimpleDecompress (take k ?cs) 10 = Inr out
             else \<exists>e. lzssSimpleDecompress (take k ?cs) 10 = Inl e \<and>
                      (e = errStreamEmpty \<or> e = errStreamPrematureEnd \<or>
                       e = errPrematureEndCopy \<or> e = errPrematureEndLiteral))
    | Inl e \<Rightarrow>
        (e = errStreamEmpty \<or> e = errStreamPrematureEnd \<or> e = errPrematureEndCopy \<or>
         e = errPrematureEndLiteral) \<and>
        (e = errStreamEmpty) = (?cs = [] \<and> (10 :: uint32) \<noteq> 0)"
    by (rule truncation_never_silent[of ?cs 10, THEN conjunct1])
  note X = this[unfolded h1 sum.case h2]
  note T = X[THEN conjunct1] X[THEN conjunct2, THEN conjunct2]
  from T(2)[THEN spec, of 5] have "\<exists>e. lzssSimpleDecompress (take 5 ?cs) 10 = Inl e"
    by auto
  with T(1) h1 h2 h3 h4 s1 s2 s3 show ?thesis by blast
qed

section \<open>The capacity of the output buffer\<close>

lemma enc_step_capacity:
  assumes "cap_inv st" "inputPos st < length xs" "9 * length xs < 8 * length (outputBuffer st)"
  shows "\<exists>st'. enc_step xs st = Inr st' \<and> cap_inv st' \<and>
               length (outputBuffer st') = length (outputBuffer st)"
proof (cases "findMatch xs (inputPos st) (currentWindowSize (inputPos st))
                (currentMaxMatchLen xs (inputPos st))")
  case None
  show ?thesis
  proof (cases "bitCount st = 7")
    case True
    with assms None show ?thesis
      by (simp add: enc_step_def flushFlag_def cap_inv_def Let_def)
  next
    case False
    with assms None show ?thesis
      by (simp add: enc_step_def flushFlag_def cap_inv_def Let_def)
  qed
next
  case (Some r)
  obtain off l where r: "r = (off, l)" by (cases r)
  from findMatch_Some[OF Some[unfolded r]]
  have l: "3 \<le> l" "inputPos st + l \<le> length xs" by (simp_all add: minMatchLength_def)
  show ?thesis
  proof (cases "bitCount st = 7")
    case True
    with assms Some r l show ?thesis
      by (simp add: enc_step_def flushFlag_def cap_inv_def Let_def)
  next
    case False
    with assms Some r l show ?thesis
      by (simp add: enc_step_def flushFlag_def cap_inv_def Let_def)
  qed
qed

lemma enc_loop_capacity:
  assumes "cap_inv st" "9 * length xs < 8 * length (outputBuffer st)"
  shows "\<exists>st'. enc_loop xs st = Inr st'"
  using assms
proof (induction xs st rule: enc_loop.induct)
  case (1 xs st)
  show ?case
  proof (cases "inputPos st < length xs")
    case False
    then show ?thesis by (subst enc_loop.simps) simp
  next
    case True
    from enc_step_capacity[OF "1.prems"(1) True "1.prems"(2)] obtain st1 where
      st1: "enc_step xs st = Inr st1" "cap_inv st1"
      "length (outputBuffer st1) = length (outputBuffer st)" by blast
    from "1.IH"[OF True st1(1) st1(2)] "1.prems"(2) st1(3)
    obtain st' where "enc_loop xs st1 = Inr st'" by auto
    with True st1(1) show ?thesis by (subst enc_loop.simps) simp
  qed
qed

lemma gen_marker: "i < 16384 \<Longrightarrow> gen i = 255 \<longleftrightarrow> i mod 3 = 2"
  unfolding gen_def by auto

lemma div_mod_128_eq: "(a :: nat) div 128 = b div 128 \<Longrightarrow> a mod 128 = b mod 128 \<Longrightarrow> a = b"
  by (metis div_mult_mod_eq)

lemma gen_residue:
  assumes "p + 2 < 16384" "q \<le> p"
    "gen q = gen p" "gen (q + 1) = gen (p + 1)" "gen (q + 2) = gen (p + 2)"
  shows "q mod 3 = p mod 3"
proof -
  have b: "p < 16384" "q < 16384" "p + 1 < 16384" "q + 1 < 16384" using assms(1,2) by simp_all
  have "q mod 3 = 2 \<longleftrightarrow> p mod 3 = 2"
    using gen_marker[OF b(1)] gen_marker[OF b(2)] assms(3) by simp
  moreover have "(q + 1) mod 3 = 2 \<longleftrightarrow> (p + 1) mod 3 = 2"
    using gen_marker[OF b(3)] gen_marker[OF b(4)] assms(4) by simp
  ultimately show m: "q mod 3 = p mod 3" by presburger
qed

lemma succ_mod_128: "((a :: nat) + 1) mod 128 = (b + 1) mod 128 \<Longrightarrow> a mod 128 = b mod 128"
proof -
  assume h: "(a + 1) mod 128 = (b + 1) mod 128"
  have "((a + 1) + 127) mod 128 = ((b + 1) + 127) mod 128"
    by (rule mod_add_cong[OF h refl])
  then have "(a + 128) mod 128 = (b + 128) mod 128" by (simp add: add.assoc)
  then show ?thesis by simp
qed

lemma mod3_facts:
  "(p :: nat) mod 3 = 0 \<Longrightarrow> (p + 1) mod 3 = 1 \<and> (p + 1) div 3 = p div 3"
  "(p :: nat) mod 3 = 1 \<Longrightarrow> (p + 2) mod 3 = 0 \<and> (p + 2) div 3 = p div 3 + 1"
  "(p :: nat) mod 3 = 2 \<Longrightarrow> (p + 1) mod 3 = 0 \<and> (p + 1) div 3 = p div 3 + 1 \<and>
      (p + 2) mod 3 = 1 \<and> (p + 2) div 3 = p div 3 + 1"
  by presburger+

lemma gen_at:
  "i mod 3 = 0 \<Longrightarrow> gen i = (i div 3) mod 128"
  "i mod 3 = 1 \<Longrightarrow> gen i = (i div 3) div 128"
  by (simp_all add: gen_def)

lemma gen_trigram_inj:
  assumes "p + 2 < 16384" "q \<le> p"
    "gen q = gen p" "gen (q + 1) = gen (p + 1)" "gen (q + 2) = gen (p + 2)"
  shows "q = p"
proof -
  note m = gen_residue[OF assms]
  have "p mod 3 < 3" by simp
  then consider "p mod 3 = 0" | "p mod 3 = 1" | "p mod 3 = 2" by linarith
  then have "q div 3 = p div 3"
  proof cases
    case 1
    with m have q0: "q mod 3 = 0" by simp
    note P = mod3_facts(1)[OF 1] and Q = mod3_facts(1)[OF q0]
    have "(q div 3) mod 128 = (p div 3) mod 128"
      using assms(3) gen_at(1)[OF 1] gen_at(1)[OF q0] by simp
    moreover have "(q div 3) div 128 = (p div 3) div 128"
      using assms(4) gen_at(2)[of "p + 1"] gen_at(2)[of "q + 1"] P Q by simp
    ultimately show ?thesis by (rule div_mod_128_eq[rotated])
  next
    case 2
    with m have q0: "q mod 3 = 1" by simp
    note P = mod3_facts(2)[OF 2] and Q = mod3_facts(2)[OF q0]
    have "(q div 3) div 128 = (p div 3) div 128"
      using assms(3) gen_at(2)[OF 2] gen_at(2)[OF q0] by simp
    moreover have "(q div 3 + 1) mod 128 = (p div 3 + 1) mod 128"
      using assms(5) gen_at(1)[of "p + 2"] gen_at(1)[of "q + 2"] P Q by simp
    then have "(q div 3) mod 128 = (p div 3) mod 128" by (rule succ_mod_128)
    ultimately show ?thesis by (rule div_mod_128_eq)
  next
    case 3
    with m have q0: "q mod 3 = 2" by simp
    note P = mod3_facts(3)[OF 3] and Q = mod3_facts(3)[OF q0]
    have "(q div 3 + 1) mod 128 = (p div 3 + 1) mod 128"
      using assms(4) gen_at(1)[of "p + 1"] gen_at(1)[of "q + 1"] P Q by simp
    moreover have "(q div 3 + 1) div 128 = (p div 3 + 1) div 128"
      using assms(5) gen_at(2)[of "p + 2"] gen_at(2)[of "q + 2"] P Q by simp
    ultimately have "q div 3 + 1 = p div 3 + 1" by (rule div_mod_128_eq[rotated])
    then show ?thesis by simp
  qed
  with m show ?thesis by (metis div_mult_mod_eq)
qed

lemma gen_less: "i < 16384 \<Longrightarrow> gen i < 256"
  by (auto simp: gen_def intro: less_trans[OF mod_less_divisor])

lemma incompressible_nth: "i < n \<Longrightarrow> incompressible n ! i = word_of_nat (gen i)"
  by (simp add: incompressible_def)

lemma length_incompressible [simp]: "length (incompressible n) = n"
  by (simp add: incompressible_def)

lemma unat_byte_of_nat: "a < 2 ^ 8 \<Longrightarrow> unat (word_of_nat a :: byte) = a"
  by (simp add: unat_of_nat)

lemma byte_of_nat_inj:
  assumes "a < 256" "b < 256" "(word_of_nat a :: byte) = word_of_nat b"
  shows "a = b"
proof -
  have "a < 2 ^ 8" "b < 2 ^ 8" using assms(1,2) by simp_all
  from unat_byte_of_nat[OF this(1)] unat_byte_of_nat[OF this(2)] assms(3)
  show ?thesis by metis
qed

lemma incompressible_no_match:
  assumes "n \<le> 16384"
  shows "findMatch (incompressible n) p w m = None"
proof (rule ccontr)
  assume "findMatch (incompressible n) p w m \<noteq> None"
  then obtain off l where f: "findMatch (incompressible n) p w m = Some (off, l)" by auto
  let ?xs = "incompressible n"
  from findMatch_Some[OF f]
  have l: "3 \<le> l" "p + l \<le> n" and o: "l \<le> off" "off \<le> p"
    and eq: "take l (drop (p - off) ?xs) = take l (drop p ?xs)"
    by (simp_all add: occurs_at_def minMatchLength_def)
  define q where "q = p - off"
  have q: "q + off = p" "q \<le> p" using o by (simp_all add: q_def)
  have nth: "?xs ! (q + i) = ?xs ! (p + i)" if "i < 3" for i
  proof -
    have "i < l" using that l by simp
    then have "take l (drop q ?xs) ! i = ?xs ! (q + i)" "take l (drop p ?xs) ! i = ?xs ! (p + i)"
      using l q by simp_all
    with eq show ?thesis by (simp add: q_def)
  qed
  have g: "gen (q + i) = gen (p + i)" if "i < 3" for i
  proof -
    have b: "p + i < n" "q + i < n" using that l q by simp_all
    then have "(word_of_nat (gen (q + i)) :: byte) = word_of_nat (gen (p + i))"
      using nth[OF that] by (simp add: incompressible_nth)
    moreover have "gen (q + i) < 256" "gen (p + i) < 256" using b assms by (simp_all add: gen_less)
    ultimately show ?thesis using byte_of_nat_inj by blast
  qed
  have "p + 2 < 16384" using l assms by simp
  from gen_trigram_inj[OF this q(2)] g[of 0] g[of 1] g[of 2] have "q = p" by simp
  with q(1) o l show False by simp
qed

lemma mod8_facts:
  "(p :: nat) mod 8 = 7 \<Longrightarrow> (p + 1) div 8 = p div 8 + 1 \<and> (p + 1) mod 8 = 0"
  "(p :: nat) mod 8 \<noteq> 7 \<Longrightarrow> (p + 1) div 8 = p div 8 \<and> (p + 1) mod 8 = p mod 8 + 1"
  by presburger+

lemma all_literal_step:
  assumes "findMatch xs (inputPos st) (currentWindowSize (inputPos st))
             (currentMaxMatchLen xs (inputPos st)) = None"
    and "lit_inv st" "inputPos st < 16383" "length (outputBuffer st) = 18432"
  shows "\<exists>st'. enc_step xs st = Inr st' \<and> lit_inv st' \<and> inputPos st' = inputPos st + 1 \<and>
               length (outputBuffer st') = 18432"
proof -
  have d: "inputPos st div 8 \<le> 2047" using assms(3) by simp
  show ?thesis
  proof (cases "inputPos st mod 8 = 7")
    case True
    with assms d mod8_facts(1)[OF True] show ?thesis
      by (simp add: enc_step_def flushFlag_def lit_inv_def Let_def)
  next
    case False
    with assms d mod8_facts(2)[OF False] show ?thesis
      by (simp add: enc_step_def flushFlag_def lit_inv_def Let_def)
  qed
qed

lemma all_literal_last:
  assumes "findMatch xs (inputPos st) (currentWindowSize (inputPos st))
             (currentMaxMatchLen xs (inputPos st)) = None"
    and "lit_inv st" "inputPos st = 16383" "length (outputBuffer st) = 18432"
  shows "enc_step xs st = Inl errBufferTooSmall"
proof -
  have "(16383 :: nat) div 8 = 2047" "(16383 :: nat) mod 8 = 7" by simp_all
  with assms show ?thesis
    by (simp add: enc_step_def flushFlag_def lit_inv_def Let_def)
qed

lemma all_literal_loop:
  assumes "\<And>p. findMatch xs p (currentWindowSize p) (currentMaxMatchLen xs p) = None"
    and "length xs = 16384"
    and "lit_inv st" "inputPos st \<le> 16383" "length (outputBuffer st) = 18432"
  shows "enc_loop xs st = Inl errBufferTooSmall"
  using assms(3-)
proof (induction "16383 - inputPos st" arbitrary: st)
  case 0
  then have p: "inputPos st = 16383" by simp
  from all_literal_last[OF assms(1) "0.prems"(1) p "0.prems"(3)] p assms(2)
  show ?case by (subst enc_loop.simps) simp
next
  case (Suc k)
  then have p: "inputPos st < 16383" by simp
  from all_literal_step[OF assms(1) Suc.prems(1) p Suc.prems(3)] obtain st' where
    st': "enc_step xs st = Inr st'" "lit_inv st'" "inputPos st' = inputPos st + 1"
      "length (outputBuffer st') = 18432" by blast
  have "k = 16383 - inputPos st'" using Suc.hyps(2) st'(3) by simp
  from Suc.hyps(1)[OF this st'(2) _ st'(4)] p st'(3)
  have "enc_loop xs st' = Inl errBufferTooSmall" by simp
  with st'(1) p assms(2) show ?case by (subst enc_loop.simps) simp
qed

lemma incompressible_overflow:
  "coreCompressV1 (incompressible 16384) = Inl errBufferTooSmall"
proof -
  let ?st0 = "\<lparr>inputPos = 0, outputPos = 1, currentFlag = 0, bitCount = 0, flagPos = 0,
     outputBuffer = (replicate 18432 (0 :: byte))[0 := 0]\<rparr>"
  have "enc_loop (incompressible 16384) ?st0 = Inl errBufferTooSmall"
    by (rule all_literal_loop) (simp_all add: incompressible_no_match lit_inv_def)
  then show ?thesis
    by (simp add: coreCompressV1_def Let_def outputBufferSlack_def)
qed

section \<open>Decoding what the encoder wrote\<close>

lemma enc_step_cases [consumes 2, case_names lit lit_flush copy copy_flush]:
  assumes "enc_step xs st = Inr st'" "bitCount st < 8"
  obtains
    (lit) "findMatch xs (inputPos st) (currentWindowSize (inputPos st))
             (currentMaxMatchLen xs (inputPos st)) = None"
      "bitCount st < 7" "outputPos st < length (outputBuffer st)"
      "inputPos st' = inputPos st + 1" "outputPos st' = outputPos st + 1"
      "currentFlag st' = currentFlag st" "bitCount st' = bitCount st + 1"
      "flagPos st' = flagPos st"
      "outputBuffer st' = (outputBuffer st)[outputPos st := xs ! inputPos st]"
  | (lit_flush) "findMatch xs (inputPos st) (currentWindowSize (inputPos st))
             (currentMaxMatchLen xs (inputPos st)) = None"
      "bitCount st = 7" "outputPos st + 1 < length (outputBuffer st)"
      "inputPos st' = inputPos st + 1" "outputPos st' = outputPos st + 2"
      "currentFlag st' = 0" "bitCount st' = 0"
      "flagPos st' = outputPos st"
      "outputBuffer st' = (outputBuffer st)[flagPos st := currentFlag st, outputPos st := 0,
                             outputPos st + 1 := xs ! inputPos st]"
  | (copy) off l where "findMatch xs (inputPos st) (currentWindowSize (inputPos st))
             (currentMaxMatchLen xs (inputPos st)) = Some (off, l)"
      "bitCount st < 7" "outputPos st + 1 < length (outputBuffer st)"
      "inputPos st' = inputPos st + l" "outputPos st' = outputPos st + 2"
      "currentFlag st' = currentFlag st OR push_bit (7 - bitCount st) 1"
      "bitCount st' = bitCount st + 1"
      "flagPos st' = flagPos st"
      "outputBuffer st' = (outputBuffer st)
          [outputPos st := ucast (encodedPairVal off l AND 0xFF),
           outputPos st + 1 := ucast (drop_bit 8 (encodedPairVal off l) AND 0xFF)]"
  | (copy_flush) off l where "findMatch xs (inputPos st) (currentWindowSize (inputPos st))
             (currentMaxMatchLen xs (inputPos st)) = Some (off, l)"
      "bitCount st = 7" "outputPos st + 2 < length (outputBuffer st)"
      "inputPos st' = inputPos st + l" "outputPos st' = outputPos st + 3"
      "currentFlag st' = 0" "bitCount st' = 0"
      "flagPos st' = outputPos st"
      "outputBuffer st' = (outputBuffer st)
          [flagPos st := currentFlag st OR push_bit (7 - bitCount st) 1, outputPos st := 0,
           outputPos st + 1 := ucast (encodedPairVal off l AND 0xFF),
           outputPos st + 2 := ucast (drop_bit 8 (encodedPairVal off l) AND 0xFF)]"
proof (cases "findMatch xs (inputPos st) (currentWindowSize (inputPos st))
                (currentMaxMatchLen xs (inputPos st))")
  case None
  show ?thesis
  proof (cases "bitCount st = 7")
    case True
    with assms None show ?thesis
      by (intro lit_flush) (auto simp: enc_step_def flushFlag_def Let_def split: if_splits)
  next
    case False
    with assms None show ?thesis
      by (intro lit) (auto simp: enc_step_def flushFlag_def Let_def split: if_splits)
  qed
next
  case (Some r)
  obtain off l where r: "r = (off, l)" by (cases r)
  show ?thesis
  proof (cases "bitCount st = 7")
    case True
    with assms Some r show ?thesis
      by (intro copy_flush[of off l])
         (auto simp: enc_step_def flushFlag_def Let_def numeral_3_eq_3 split: if_splits)
  next
    case False
    with assms Some r show ?thesis
      by (intro copy[of off l]) (auto simp: enc_step_def flushFlag_def Let_def split: if_splits)
  qed
qed

lemma bit_flag_bit:
  "bit (push_bit (7 - bc) (1 :: byte)) j \<longleftrightarrow> j = 7 - bc"
  "bit ((2 :: byte) ^ (7 - bc)) j \<longleftrightarrow> j = 7 - bc"
  by (auto simp: bit_simps)

lemma enc_step_inv:
  assumes "enc_step xs st = Inr st'" "enc_inv xs st" "inputPos st < length xs"
  shows "enc_inv xs st'"
proof -
  from assms(2) have bc: "bitCount st < 8" by (simp add: enc_inv_def)
  from assms(1) bc show ?thesis
  proof (cases rule: enc_step_cases)
    case lit
    with assms(2,3) show ?thesis by (auto simp: enc_inv_def)
  next
    case lit_flush
    with assms(2,3) show ?thesis by (auto simp: enc_inv_def)
  next
    case (copy off l)
    from findMatch_Some[OF copy(1)] have "inputPos st + l \<le> length xs" by simp
    with copy assms(2,3) show ?thesis
      by (auto simp: enc_inv_def bit_or_iff bit_flag_bit)
  next
    case (copy_flush off l)
    from findMatch_Some[OF copy_flush(1)] have "inputPos st + l \<le> length xs" by simp
    with copy_flush assms(2,3) show ?thesis by (auto simp: enc_inv_def)
  qed
qed

lemma agrees_back:
  assumes "enc_step xs st = Inr st'" "enc_inv xs st" "agrees st' S"
  shows "agrees st S"
proof -
  from assms(2) have bc: "bitCount st < 8" and fp: "flagPos st < outputPos st"
    and op: "outputPos st \<le> length (outputBuffer st)"
    by (simp_all add: enc_inv_def)
  from assms(1) bc show ?thesis
  proof (cases rule: enc_step_cases)
    case lit
    with assms(3) fp op show ?thesis
      by (auto simp: agrees_def)
  next
    case lit_flush
    have "S ! flagPos st = outputBuffer st' ! flagPos st"
      using assms(3) fp lit_flush by (simp add: agrees_def)
    also have "\<dots> = currentFlag st" using fp op lit_flush by simp
    finally have "S ! flagPos st = currentFlag st" .
    with lit_flush assms(3) fp op show ?thesis
      by (auto simp: agrees_def)
  next
    case (copy off l)
    with assms(3) fp op show ?thesis
      by (auto simp: agrees_def bit_or_iff bit_flag_bit)
  next
    case (copy_flush off l)
    have "S ! flagPos st = outputBuffer st' ! flagPos st"
      using assms(3) fp copy_flush by (simp add: agrees_def)
    also have "\<dots> = currentFlag st OR push_bit (7 - bitCount st) 1"
      using fp op copy_flush by simp
    finally have "S ! flagPos st = currentFlag st OR push_bit (7 - bitCount st) 1" .
    with copy_flush assms(3) fp op show ?thesis
      by (auto simp: agrees_def bit_or_iff bit_flag_bit bit_1_iff)
  qed
qed

lemma agrees_final_self:
  assumes "enc_inv xs st"
  shows "agrees st (final_stream st)"
  using assms by (auto simp: agrees_def final_stream_def enc_inv_def slice_def)

lemma agrees_final:
  assumes "enc_loop xs st = Inr stF" "enc_inv xs st"
  shows "agrees st (final_stream stF)"
  using assms
proof (induction xs st rule: enc_loop.induct)
  case (1 xs st)
  show ?case
  proof (cases "inputPos st < length xs")
    case False
    with "1.prems" have "stF = st" by (subst (asm) enc_loop.simps) simp
    with agrees_final_self[OF "1.prems"(2)] show ?thesis by simp
  next
    case True
    with "1.prems"(1) obtain st1 where st1: "enc_step xs st = Inr st1" "enc_loop xs st1 = Inr stF"
      by (subst (asm) enc_loop.simps) (auto split: sum.splits)
    note inv1 = enc_step_inv[OF st1(1) "1.prems"(2) True]
    from "1.IH"[OF True st1(1) st1(2) inv1] have "agrees st1 (final_stream stF)" .
    from agrees_back[OF st1(1) "1.prems"(2) this] show ?thesis .
  qed
qed

lemma and80: "(w :: byte) AND 0x80 \<noteq> 0 \<longleftrightarrow> bit w 7"
  using bit_iff_and_push_bit_not_eq_0[of w 7] by simp

lemma bit_push7: "bc < 8 \<Longrightarrow> bit (push_bit bc (c :: byte)) 7 \<longleftrightarrow> bit c (7 - bc)"
  by (auto simp: bit_simps)

lemma dec_step_same_flag:
  assumes "streamIdx d \<le> length cs" "bitsLeft d \<noteq> 1"
  shows "dec_step cs n d =
     (if bit (controlByte d) 7
      then copyToken cs n (d\<lparr>controlByte := push_bit 1 (controlByte d), bitsLeft := bitsLeft d - 1\<rparr>)
      else literalToken cs n (d\<lparr>controlByte := push_bit 1 (controlByte d), bitsLeft := bitsLeft d - 1\<rparr>))"
  using assms by (simp add: dec_step_def Let_def and80)

lemma dec_step_next_flag:
  assumes "streamIdx d < length cs" "bitsLeft d = 1"
  shows "dec_step cs n d =
     (if bit (controlByte d) 7
      then copyToken cs n (d\<lparr>controlByte := cs ! streamIdx d, streamIdx := streamIdx d + 1,
                             bitsLeft := 8\<rparr>)
      else literalToken cs n (d\<lparr>controlByte := cs ! streamIdx d, streamIdx := streamIdx d + 1,
                                bitsLeft := 8\<rparr>))"
  using assms by (simp add: dec_step_def Let_def and80)

lemma literalToken_ok:
  assumes "streamIdx d < length cs" "length (outBuffer d) < unat n"
  shows "literalToken cs n d =
     Inr (Continue (d\<lparr>outBuffer := outBuffer d @ [cs ! streamIdx d],
                       streamIdx := streamIdx d + 1\<rparr>))"
proof -
  have "length (outBuffer d) \<le> unat n" using assms(2) by simp
  from unat_len[OF this] assms(2)
  have "\<not> n \<le> (word_of_nat (length (outBuffer d)) :: uint32)"
    by (simp add: word_le_nat_alt)
  with assms(1) show ?thesis by (simp add: literalToken_def)
qed

lemma copy_loop_correct:
  assumes "q + k \<le> length xs" "length xs \<le> unat n" "1 \<le> off" "off \<le> q"
    "\<And>i. i < k \<Longrightarrow> xs ! (q + i - off) = xs ! (q + i)"
  shows "copy_loop k off n (take q xs) = take (q + k) xs"
  using assms
proof (induction k arbitrary: q)
  case 0
  then show ?case by simp
next
  case (Suc k)
  have q: "q < length xs" "q < unat n" using Suc.prems(1,2) by simp_all
  then have lq: "length (take q xs) = q" by simp
  have "length (take q xs) \<le> unat n" using q lq by simp
  from unat_len[OF this] q lq
  have c: "\<not> n \<le> (word_of_nat (length (take q xs)) :: uint32)"
    by (simp add: word_le_nat_alt)
  have "take q xs ! (q - off) = xs ! (q - off)" using Suc.prems(3,4) q by simp
  also have "\<dots> = xs ! q" using Suc.prems(5)[of 0] by simp
  finally have "take q xs @ [take q xs ! (q - off)] = take (Suc q) xs"
    using q by (simp add: take_Suc_conv_app_nth)
  moreover have "copy_loop k off n (take (Suc q) xs) = take (Suc q + k) xs"
  proof (rule Suc.IH)
    show "Suc q + k \<le> length xs" using Suc.prems(1) by simp
    show "off \<le> Suc q" using Suc.prems(4) by simp
    show "xs ! (Suc q + i - off) = xs ! (Suc q + i)" if "i < k" for i
      using Suc.prems(5)[of "Suc i"] that by simp
  qed (use Suc.prems in auto)
  ultimately show ?case using c Suc.prems(4) lq by simp
qed

lemma occurs_at_nth:
  assumes "occurs_at xs p l off" "p + l \<le> length xs" "i < l"
  shows "xs ! (p + i - off) = xs ! (p + i)"
proof -
  from assms(1) have o: "l \<le> off" "off \<le> p"
    and eq: "take l (drop (p - off) xs) = take l (drop p xs)"
    by (simp_all add: occurs_at_def)
  have "take l (drop (p - off) xs) ! i = xs ! (p - off + i)"
    using assms(2,3) o by simp
  moreover have "take l (drop p xs) ! i = xs ! (p + i)" using assms(2,3) by simp
  moreover have "p - off + i = p + i - off" using o by simp
  ultimately show ?thesis using eq by simp
qed

lemma step_simulation:
  assumes step: "enc_step xs st = Inr st'"
    and inv: "enc_inv xs st"
    and pos: "inputPos st < length xs"
    and ag: "agrees st' S"
    and rel: "dec_rel xs st S d"
    and n: "unat n = length xs"
  shows "\<exists>d'. dec_step S n d = Inr (Continue d') \<and> dec_rel xs st' S d'"
proof -
  from inv have bc: "bitCount st < 8" and fp: "flagPos st < outputPos st"
    and op: "outputPos st \<le> length (outputBuffer st)"
    and nobit: "\<not> bit (currentFlag st) (7 - bitCount st)"
    by (auto simp: enc_inv_def)
  from rel have d: "streamIdx d = outputPos st" "outBuffer d = take (inputPos st) xs"
    "bitsLeft d = 8 - int (bitCount st)" "controlByte d = push_bit (bitCount st) (S ! flagPos st)"
    by (simp_all add: dec_rel_def)
  from ag have S: "outputPos st' \<le> length S"
    and Snth: "\<And>i. i < outputPos st' \<Longrightarrow> i \<noteq> flagPos st' \<Longrightarrow> S ! i = outputBuffer st' ! i"
    and Sbit: "\<And>j. 8 - bitCount st' \<le> j \<Longrightarrow> bit (S ! flagPos st') j = bit (currentFlag st') j"
    by (simp_all add: agrees_def)
  have top: "bit (controlByte d) 7 = bit (S ! flagPos st) (7 - bitCount st)"
    unfolding d(4) by (rule bit_push7[OF bc])
  have out: "length (outBuffer d) < unat n" using d(2) pos n by simp
  from step bc show ?thesis
  proof (cases rule: enc_step_cases)
    case lit
    have b: "\<not> bit (S ! flagPos st) (7 - bitCount st)"
      using Sbit[of "7 - bitCount st"] lit nobit by simp
    have t: "S ! outputPos st = xs ! inputPos st"
      using Snth[of "outputPos st"] lit fp op by simp
    have "dec_step S n d = Inr (Continue (d\<lparr>controlByte := push_bit 1 (controlByte d),
        bitsLeft := bitsLeft d - 1, outBuffer := outBuffer d @ [S ! outputPos st],
        streamIdx := outputPos st + 1\<rparr>))"
      using lit S d top b out
      by (subst dec_step_same_flag) (simp_all add: literalToken_ok)
    moreover have "dec_rel xs st' S (d\<lparr>controlByte := push_bit 1 (controlByte d),
        bitsLeft := bitsLeft d - 1, outBuffer := outBuffer d @ [S ! outputPos st],
        streamIdx := outputPos st + 1\<rparr>)"
      using lit d t pos by (simp add: dec_rel_def take_Suc_conv_app_nth)
    ultimately show ?thesis by blast
  next
    case lit_flush
    have "S ! flagPos st = outputBuffer st' ! flagPos st"
      using Snth[of "flagPos st"] fp lit_flush by simp
    also have "\<dots> = currentFlag st" using fp op lit_flush by simp
    finally have b: "\<not> bit (S ! flagPos st) (7 - bitCount st)" using nobit by simp
    have t: "S ! (outputPos st + 1) = xs ! inputPos st"
      using Snth[of "outputPos st + 1"] lit_flush fp op by simp
    have "dec_step S n d = Inr (Continue (d\<lparr>controlByte := S ! outputPos st,
        bitsLeft := 8, outBuffer := outBuffer d @ [S ! (outputPos st + 1)],
        streamIdx := outputPos st + 2\<rparr>))"
      using lit_flush S d top b out
      by (subst dec_step_next_flag) (simp_all add: literalToken_ok)
    moreover have "dec_rel xs st' S (d\<lparr>controlByte := S ! outputPos st,
        bitsLeft := 8, outBuffer := outBuffer d @ [S ! (outputPos st + 1)],
        streamIdx := outputPos st + 2\<rparr>)"
      using lit_flush d t pos by (simp add: dec_rel_def take_Suc_conv_app_nth)
    ultimately show ?thesis by blast
  next
    case (copy off l)
    from findMatch_Some[OF copy(1)]
    have m: "1 \<le> off" "off \<le> 4096" "3 \<le> l" "l \<le> 18"
      and fit: "inputPos st + l \<le> length xs" and occ: "occurs_at xs (inputPos st) l off"
      by (auto simp: occurs_at_def minMatchLength_def currentWindowSize_def
            currentMaxMatchLen_def maxWindowSize_def maxEncodedLength_def split: if_splits)
    let ?lo = "ucast (encodedPairVal off l AND 0xFF) :: byte"
    let ?hi = "ucast (drop_bit 8 (encodedPairVal off l) AND 0xFF) :: byte"
    have b: "bit (S ! flagPos st) (7 - bitCount st)"
      using Sbit[of "7 - bitCount st"] copy by (simp add: bit_or_iff bit_flag_bit)
    have t: "S ! outputPos st = ?lo" "S ! (outputPos st + 1) = ?hi"
      using Snth[of "outputPos st"] Snth[of "outputPos st + 1"] copy fp op by simp_all
    have cp: "copy_loop l off n (take (inputPos st) xs) = take (inputPos st + l) xs"
      using fit n m(1) occ occurs_at_nth[OF occ fit]
      by (intro copy_loop_correct) (simp_all add: occurs_at_def)
    let ?d' = "d\<lparr>controlByte := push_bit 1 (controlByte d),
        bitsLeft := bitsLeft d - 1, streamIdx := outputPos st + 2,
        outBuffer := take (inputPos st + l) xs\<rparr>"
    have "dec_step S n d = Inr (Continue ?d')"
      using copy S d top b t cp pair_roundtrip[OF m]
      by (subst dec_step_same_flag) (simp_all add: copyToken_ok)
    moreover have "dec_rel xs st' S ?d'"
      using copy d by (simp add: dec_rel_def)
    ultimately show ?thesis by blast
  next
    case (copy_flush off l)
    from findMatch_Some[OF copy_flush(1)]
    have m: "1 \<le> off" "off \<le> 4096" "3 \<le> l" "l \<le> 18"
      and fit: "inputPos st + l \<le> length xs" and occ: "occurs_at xs (inputPos st) l off"
      by (auto simp: occurs_at_def minMatchLength_def currentWindowSize_def
            currentMaxMatchLen_def maxWindowSize_def maxEncodedLength_def split: if_splits)
    let ?lo = "ucast (encodedPairVal off l AND 0xFF) :: byte"
    let ?hi = "ucast (drop_bit 8 (encodedPairVal off l) AND 0xFF) :: byte"
    have "S ! flagPos st = outputBuffer st' ! flagPos st"
      using Snth[of "flagPos st"] fp copy_flush by simp
    also have "\<dots> = currentFlag st OR push_bit (7 - bitCount st) 1"
      using fp op copy_flush by simp
    finally have b: "bit (S ! flagPos st) (7 - bitCount st)"
      by (simp add: bit_or_iff bit_flag_bit)
    have t: "S ! (outputPos st + 1) = ?lo" "S ! (outputPos st + 2) = ?hi"
      using Snth[of "outputPos st + 1"] Snth[of "outputPos st + 2"] copy_flush fp op
      by simp_all
    have cp: "copy_loop l off n (take (inputPos st) xs) = take (inputPos st + l) xs"
      using fit n m(1) occ occurs_at_nth[OF occ fit]
      by (intro copy_loop_correct) (simp_all add: occurs_at_def)
    let ?d' = "d\<lparr>controlByte := S ! outputPos st,
        bitsLeft := 8, streamIdx := outputPos st + 3,
        outBuffer := take (inputPos st + l) xs\<rparr>"
    have "dec_step S n d = Inr (Continue ?d')"
      using copy_flush S d top b t cp pair_roundtrip[OF m]
      by (subst dec_step_next_flag) (simp_all add: copyToken_ok)
    moreover have "dec_rel xs st' S ?d'"
      using copy_flush d by (simp add: dec_rel_def)
    ultimately show ?thesis by blast
  qed
qed

lemma loop_simulation:
  assumes "enc_loop xs st = Inr stF" "enc_inv xs st" "dec_rel xs st (final_stream stF) d"
    "unat n = length xs"
  shows "\<exists>dF. dec_loop (final_stream stF) n d = Inr dF \<and> outBuffer dF = xs"
  using assms
proof (induction xs st arbitrary: d rule: enc_loop.induct)
  case (1 xs st)
  let ?S = "final_stream stF"
  from "1.prems"(3) have out: "outBuffer d = take (inputPos st) xs" by (simp add: dec_rel_def)
  from "1.prems"(2) have le: "inputPos st \<le> length xs" by (simp add: enc_inv_def)
  have lo: "length (outBuffer d) \<le> unat n" using out "1.prems"(4) by simp
  show ?case
  proof (cases "inputPos st < length xs")
    case False
    with le out have "outBuffer d = xs" by simp
    moreover have "\<not> (word_of_nat (length (outBuffer d)) :: uint32) < n"
      using len_less_iff[OF lo] calculation "1.prems"(4) by simp
    ultimately show ?thesis by (subst dec_loop.simps) simp
  next
    case True
    with "1.prems"(1) obtain st1 where st1: "enc_step xs st = Inr st1" "enc_loop xs st1 = Inr stF"
      by (subst (asm) enc_loop.simps) (auto split: sum.splits)
    note inv1 = enc_step_inv[OF st1(1) "1.prems"(2) True]
    note ag1 = agrees_final[OF st1(2) inv1]
    from step_simulation[OF st1(1) "1.prems"(2) True ag1 "1.prems"(3,4)]
    obtain d1 where d1: "dec_step ?S n d = Inr (Continue d1)" "dec_rel xs st1 ?S d1" by blast
    from "1.IH"[OF True st1(1) st1(2) inv1 d1(2) "1.prems"(4)]
    obtain dF where dF: "dec_loop ?S n d1 = Inr dF" "outBuffer dF = xs" by blast
    have "(word_of_nat (length (outBuffer d)) :: uint32) < n"
      using len_less_iff[OF lo] out True "1.prems"(4) by simp
    with d1(1) dF show ?thesis by (subst dec_loop.simps) simp
  qed
qed

section \<open>The stream does not depend on the size of the buffer\<close>

lemma coreCompressV1_compressInto:
  "coreCompressV1 xs = (if length xs = 0 then Inr [] else compressInto (bufferSize xs) xs)"
  by (simp add: coreCompressV1_def compressInto_def bufferSize_def Let_def)

lemma enc_step_other_buffer:
  assumes step: "enc_step xs st1 = Inr st1'"
    and inv: "enc_inv xs st1"
    and same: "same_upto st1 st2"
  shows "if outputPos st1' \<le> length (outputBuffer st2)
         then \<exists>st2'. enc_step xs st2 = Inr st2' \<and> same_upto st1' st2' \<and>
                length (outputBuffer st2') = length (outputBuffer st2)
         else enc_step xs st2 = Inl errBufferTooSmall"
proof -
  from inv have bc: "bitCount st1 < 8" and fp: "flagPos st1 < outputPos st1"
    and op: "outputPos st1 \<le> length (outputBuffer st1)"
    by (simp_all add: enc_inv_def)
  from same have s: "inputPos st2 = inputPos st1" "outputPos st2 = outputPos st1"
    "currentFlag st2 = currentFlag st1" "bitCount st2 = bitCount st1" "flagPos st2 = flagPos st1"
    and b: "\<And>i. i < outputPos st1 \<Longrightarrow> outputBuffer st2 ! i = outputBuffer st1 ! i"
    by (simp_all add: same_upto_def)
  from step bc show ?thesis
  proof (cases rule: enc_step_cases)
    case lit
    with s b fp op show ?thesis
      by (auto simp: enc_step_def flushFlag_def Let_def same_upto_def nth_list_update)
  next
    case lit_flush
    with s b fp op show ?thesis
      by (auto simp: enc_step_def flushFlag_def Let_def same_upto_def nth_list_update)
  next
    case (copy off l)
    with s b fp op show ?thesis
      by (auto simp: enc_step_def flushFlag_def Let_def same_upto_def nth_list_update)
  next
    case (copy_flush off l)
    with s b fp op show ?thesis
      by (auto simp: enc_step_def flushFlag_def Let_def same_upto_def nth_list_update)
  qed
qed

lemma enc_step_cap:
  assumes "enc_step xs st = Inr st'" "cap_inv st"
  shows "cap_inv st'"
proof -
  from assms(2) have bc: "bitCount st < 8" by (simp add: cap_inv_def)
  from assms(1) bc show ?thesis
  proof (cases rule: enc_step_cases)
    case lit
    with assms(2) show ?thesis by (simp add: cap_inv_def)
  next
    case lit_flush
    with assms(2) show ?thesis by (simp add: cap_inv_def)
  next
    case (copy off l)
    from findMatch_Some[OF copy(1)] have "3 \<le> l" by (simp add: minMatchLength_def)
    with copy assms(2) show ?thesis by (simp add: cap_inv_def)
  next
    case (copy_flush off l)
    from findMatch_Some[OF copy_flush(1)] have "3 \<le> l" by (simp add: minMatchLength_def)
    with copy_flush assms(2) show ?thesis by (simp add: cap_inv_def)
  qed
qed

lemma enc_step_outputPos:
  assumes "enc_step xs st = Inr st'" "bitCount st < 8"
  shows "outputPos st < outputPos st'"
  using assms by (cases rule: enc_step_cases) simp_all

lemma enc_loop_final:
  assumes "enc_loop xs st = Inr stF" "enc_inv xs st" "cap_inv st"
  shows "enc_inv xs stF \<and> cap_inv stF \<and> inputPos stF = length xs \<and>
         outputPos st \<le> outputPos stF"
  using assms
proof (induction xs st rule: enc_loop.induct)
  case (1 xs st)
  show ?case
  proof (cases "inputPos st < length xs")
    case False
    with "1.prems" have "stF = st" by (subst (asm) enc_loop.simps) simp
    with "1.prems"(2,3) False show ?thesis by (auto simp: enc_inv_def)
  next
    case True
    with "1.prems"(1) obtain st1 where st1: "enc_step xs st = Inr st1" "enc_loop xs st1 = Inr stF"
      by (subst (asm) enc_loop.simps) (auto split: sum.splits)
    note inv1 = enc_step_inv[OF st1(1) "1.prems"(2) True]
    note cap1 = enc_step_cap[OF st1(1) "1.prems"(3)]
    from "1.prems"(2) have "bitCount st < 8" by (simp add: enc_inv_def)
    from enc_step_outputPos[OF st1(1) this] "1.IH"[OF True st1(1) st1(2) inv1 cap1]
    show ?thesis by simp
  qed
qed

lemma enc_loop_other_buffer:
  assumes "enc_loop xs st1 = Inr stF1" "enc_inv xs st1" "cap_inv st1" "same_upto st1 st2"
    "outputPos st1 \<le> length (outputBuffer st2)"
  shows "if outputPos stF1 \<le> length (outputBuffer st2)
         then \<exists>stF2. enc_loop xs st2 = Inr stF2 \<and> same_upto stF1 stF2 \<and>
                length (outputBuffer stF2) = length (outputBuffer st2)
         else enc_loop xs st2 = Inl errBufferTooSmall"
  using assms
proof (induction xs st1 arbitrary: st2 rule: enc_loop.induct)
  case (1 xs st1)
  from "1.prems"(4) have ip: "inputPos st2 = inputPos st1" by (simp add: same_upto_def)
  show ?case
  proof (cases "inputPos st1 < length xs")
    case False
    with "1.prems"(1) have "stF1 = st1" by (subst (asm) enc_loop.simps) simp
    moreover have "enc_loop xs st2 = Inr st2" using False ip by (subst enc_loop.simps) simp
    ultimately show ?thesis using "1.prems"(4,5) by simp
  next
    case True
    with "1.prems"(1) obtain st1' where
      st1': "enc_step xs st1 = Inr st1'" "enc_loop xs st1' = Inr stF1"
      by (subst (asm) enc_loop.simps) (auto split: sum.splits)
    note inv1 = enc_step_inv[OF st1'(1) "1.prems"(2) True]
    note cap1 = enc_step_cap[OF st1'(1) "1.prems"(3)]
    from enc_loop_final[OF st1'(2) inv1 cap1] have mono: "outputPos st1' \<le> outputPos stF1"
      by simp
    note S = enc_step_other_buffer[OF st1'(1) "1.prems"(2,4)]
    show ?thesis
    proof (cases "outputPos st1' \<le> length (outputBuffer st2)")
      case fits: True
      with S obtain st2' where st2': "enc_step xs st2 = Inr st2'" "same_upto st1' st2'"
        "length (outputBuffer st2') = length (outputBuffer st2)" by auto
      have e: "enc_loop xs st2 = enc_loop xs st2'"
        using st2'(1) True ip by (subst enc_loop.simps) simp
      from fits st2'(3) have "outputPos st1' \<le> length (outputBuffer st2')" by simp
      from "1.IH"[OF True st1'(1) st1'(2) inv1 cap1 st2'(2) this]
      show ?thesis unfolding e st2'(3) .
    next
      case False
      with S have "enc_step xs st2 = Inl errBufferTooSmall" by simp
      moreover have "\<not> outputPos stF1 \<le> length (outputBuffer st2)" using False mono by simp
      ultimately show ?thesis using True ip by (subst enc_loop.simps) simp
    qed
  qed
qed

lemma compressInto_big:
  assumes "xs \<noteq> []" "9 * length xs < 8 * B"
  shows "\<exists>stF. enc_loop xs \<lparr>inputPos = 0, outputPos = 1, currentFlag = 0, bitCount = 0,
            flagPos = 0, outputBuffer = (replicate B (0 :: byte))[0 := 0]\<rparr> = Inr stF"
  by (rule enc_loop_capacity) (use assms in \<open>simp_all add: cap_inv_def\<close>)

lemma final_stream_same:
  assumes "same_upto st1 st2" "outputPos st1 \<le> length (outputBuffer st1)"
    "outputPos st1 \<le> length (outputBuffer st2)" "flagPos st1 < outputPos st1"
  shows "final_stream st2 = final_stream st1"
  using assms
  by (auto simp: final_stream_def slice_def same_upto_def nth_list_update
      intro!: nth_equalityI)

lemma compressInto_exact:
  assumes "xs \<noteq> []"
  shows "compressInto B xs = (if length (unboundedStream xs) \<le> B then Inr (unboundedStream xs)
                              else Inl errBufferTooSmall)"
    and "1 \<le> length (unboundedStream xs)"
    and "8 * length (unboundedStream xs) \<le> 8 + 9 * length xs"
proof -
  let ?st = "\<lambda>B. \<lparr>inputPos = 0, outputPos = 1, currentFlag = 0, bitCount = 0,
            flagPos = 0, outputBuffer = (replicate B (0 :: byte))[0 := 0]\<rparr>"
  let ?B1 = "2 * length xs + 2"
  from compressInto_big[OF assms, of ?B1] obtain stF1 where
    stF1: "enc_loop xs (?st ?B1) = Inr stF1" by auto
  have inv: "enc_inv xs (?st ?B1)" and cap: "cap_inv (?st ?B1)"
    by (simp_all add: enc_inv_def cap_inv_def)
  from enc_loop_final[OF stF1 inv cap] have F: "enc_inv xs stF1" "cap_inv stF1"
    "inputPos stF1 = length xs" "1 \<le> outputPos stF1" by simp_all
  have u: "unboundedStream xs = final_stream stF1"
    using assms stF1 by (simp add: unboundedStream_def compressInto_def final_stream_def)
  have len: "length (unboundedStream xs) = outputPos stF1"
    using F(1) by (simp add: u final_stream_def slice_def enc_inv_def)
  show "1 \<le> length (unboundedStream xs)" using len F(4) by simp
  show "8 * length (unboundedStream xs) \<le> 8 + 9 * length xs"
    using len F(2,3) by (simp add: cap_inv_def)
  show "compressInto B xs = (if length (unboundedStream xs) \<le> B then Inr (unboundedStream xs)
                              else Inl errBufferTooSmall)"
  proof (cases "B = 0")
    case True
    with len F(4) show ?thesis by (simp add: compressInto_def)
  next
    case False
    have same: "same_upto (?st ?B1) (?st B)" using False by (simp add: same_upto_def)
    have "outputPos (?st ?B1) \<le> length (outputBuffer (?st B))" using False by simp
    note L = enc_loop_other_buffer[OF stF1 inv cap same this]
    show ?thesis
    proof (cases "outputPos stF1 \<le> B")
      case True
      with L obtain stF2 where stF2: "enc_loop xs (?st B) = Inr stF2" "same_upto stF1 stF2"
        "length (outputBuffer stF2) = B"
        by auto
      have "final_stream stF2 = final_stream stF1"
        using F(1) True stF2(3)
        by (intro final_stream_same[OF stF2(2)]) (simp_all add: enc_inv_def)
      with stF2(1) True False len u show ?thesis
        by (simp add: compressInto_def final_stream_def)
    next
      case nofit: False
      with L have "enc_loop xs (?st B) = Inl errBufferTooSmall" by simp
      with nofit False len show ?thesis by (simp add: compressInto_def)
    qed
  qed
qed

lemma constant_match:
  assumes "3 \<le> p" "p + 3 \<le> n"
  shows "findMatch (replicate n c) p (currentWindowSize p) (currentMaxMatchLen (replicate n c) p)
           \<noteq> None"
proof
  assume N: "findMatch (replicate n c) p (currentWindowSize p)
               (currentMaxMatchLen (replicate n c) p) = None"
  have "\<not> occurs_at (replicate n c) p 3 3"
    by (rule findMatch_None[OF N])
       (use assms in \<open>auto simp: minMatchLength_def currentWindowSize_def currentMaxMatchLen_def
          maxWindowSize_def maxEncodedLength_def\<close>)
  moreover have "occurs_at (replicate n c) p 3 3"
    using assms by (simp add: occurs_at_def)
  ultimately show False by simp
qed

lemma enc_step_run:
  assumes "enc_step (replicate n c) st = Inr st'" "run_inv n st" "inputPos st < n"
  shows "run_inv n st'"
proof -
  from assms(2) have bc: "bitCount st < 8" by (simp add: run_inv_def)
  from assms(1) bc show ?thesis
  proof (cases rule: enc_step_cases)
    case lit
    have "inputPos st < 3 \<or> n < inputPos st + 3"
    proof (rule ccontr)
      assume "\<not> (inputPos st < 3 \<or> n < inputPos st + 3)"
      then have "3 \<le> inputPos st" "inputPos st + 3 \<le> n" by simp_all
      from constant_match[OF this, of c] lit(1) show False by simp
    qed
    with lit assms(2,3) show ?thesis by (auto simp: run_inv_def)
  next
    case lit_flush
    have "inputPos st < 3 \<or> n < inputPos st + 3"
    proof (rule ccontr)
      assume "\<not> (inputPos st < 3 \<or> n < inputPos st + 3)"
      then have "3 \<le> inputPos st" "inputPos st + 3 \<le> n" by simp_all
      from constant_match[OF this, of c] lit_flush(1) show False by simp
    qed
    with lit_flush assms(2,3) show ?thesis by (auto simp: run_inv_def)
  next
    case (copy off l)
    from findMatch_Some[OF copy(1)] have "3 \<le> l" "l \<le> off" "off \<le> inputPos st"
      by (simp_all add: minMatchLength_def occurs_at_def)
    with copy assms(2) show ?thesis by (auto simp: run_inv_def)
  next
    case (copy_flush off l)
    from findMatch_Some[OF copy_flush(1)] have "3 \<le> l" "l \<le> off" "off \<le> inputPos st"
      by (simp_all add: minMatchLength_def occurs_at_def)
    with copy_flush assms(2) show ?thesis by (auto simp: run_inv_def)
  qed
qed

lemma enc_loop_run:
  assumes "enc_loop (replicate n c) st = Inr stF" "run_inv n st" "enc_inv (replicate n c) st"
  shows "run_inv n stF"
  using assms
proof (induction "replicate n c" st rule: enc_loop.induct)
  case (1 st)
  show ?case
  proof (cases "inputPos st < n")
    case False
    with "1.prems" have "stF = st" by (subst (asm) enc_loop.simps) simp
    with "1.prems"(2) show ?thesis by simp
  next
    case True
    with "1.prems"(1) obtain st1 where
      st1: "enc_step (replicate n c) st = Inr st1" "enc_loop (replicate n c) st1 = Inr stF"
      by (subst (asm) enc_loop.simps) (auto split: sum.splits)
    from True have T: "inputPos st < length (replicate n c)" by simp
    note inv1 = enc_step_inv[OF st1(1) "1.prems"(3) T]
    from "1.hyps"[OF T st1(1) st1(2) enc_step_run[OF st1(1) "1.prems"(2) True] inv1]
    show ?thesis .
  qed
qed

lemma constant_stream_length:
  "8 * length (unboundedStream (replicate n c)) \<le> 6 * n + 23"
proof (cases "n = 0")
  case True
  then show ?thesis by (simp add: unboundedStream_def)
next
  case False
  let ?xs = "replicate n c"
  let ?st = "\<lparr>inputPos = 0, outputPos = 1, currentFlag = 0, bitCount = 0,
            flagPos = 0, outputBuffer = (replicate (2 * n + 2) (0 :: byte))[0 := 0]\<rparr>"
  from False have ne: "?xs \<noteq> []" by simp
  from compressInto_big[OF ne, of "2 * n + 2"] obtain stF where
    stF: "enc_loop ?xs ?st = Inr stF" by auto
  have inv: "enc_inv ?xs ?st" and cap: "cap_inv ?st" and run: "run_inv n ?st"
    by (simp_all add: enc_inv_def cap_inv_def run_inv_def)
  from enc_loop_final[OF stF inv cap] have F: "enc_inv ?xs stF" "inputPos stF = n" by simp_all
  from enc_loop_run[OF stF run inv] F(2)
  have "8 * outputPos stF \<le> 6 * n + 23" by (auto simp: run_inv_def min_def split: if_splits)
  moreover have "unboundedStream ?xs = final_stream stF"
    using ne stF by (simp add: unboundedStream_def compressInto_def final_stream_def)
  moreover have "length (final_stream stF) = outputPos stF"
    using F(1) by (simp add: final_stream_def slice_def enc_inv_def)
  ultimately show ?thesis by simp
qed

lemma constant_compresses:
  "coreCompressV1 (replicate n c) = Inr (unboundedStream (replicate n c))"
proof (cases "n = 0")
  case True
  then show ?thesis by (simp add: coreCompressV1_def unboundedStream_def)
next
  case False
  then have ne: "replicate n c \<noteq> []" by simp
  have "length (unboundedStream (replicate n c)) \<le> bufferSize (replicate n c)"
    using constant_stream_length[of n c] by (simp add: bufferSize_def outputBufferSlack_def)
  with False show ?thesis
    by (simp add: coreCompressV1_compressInto compressInto_exact(1)[OF ne])
qed

lemma compressInto_round_trip:
  assumes "compressInto B X = Inr s" "X \<noteq> []" "unat n = length X"
  shows "lzssSimpleDecompress s n = Inr X"
proof -
  define st0 where "st0 = \<lparr>inputPos = 0, outputPos = 1, currentFlag = 0, bitCount = 0, flagPos = 0,
                      outputBuffer = (replicate B (0 :: byte))[0 := 0]\<rparr>"
  from assms(1) obtain stF where stF: "enc_loop X st0 = Inr stF" "s = final_stream stF"
    and B: "0 < B"
    unfolding compressInto_def Let_def st0_def[symmetric] final_stream_def
    by (auto split: sum.splits if_splits)
  have inv0: "enc_inv X st0" using B by (simp add: enc_inv_def st0_def)
  from agrees_final[OF stF(1) inv0] have "outputPos st0 \<le> length s"
    by (simp add: agrees_def stF(2))
  then have ne: "s \<noteq> []" by (auto simp: st0_def)
  let ?d0 = "\<lparr>streamIdx = 1, controlByte = s ! 0, bitsLeft = 8, outBuffer = []\<rparr>"
  have "dec_rel X st0 s ?d0" by (simp add: dec_rel_def st0_def)
  from loop_simulation[OF stF(1) inv0 this[unfolded stF(2)] assms(3)] obtain dF where
    "dec_loop s n ?d0 = Inr dF" "outBuffer dF = X"
    unfolding stF(2) by blast
  with ne show ?thesis by (simp add: lzssSimpleDecompress_def)
qed

lemma coreCompressV1_exact:
  "coreCompressV1 X = (if length (unboundedStream X) \<le> bufferSize X
                       then Inr (unboundedStream X) else Inl errBufferTooSmall)"
proof (cases "X = []")
  case True
  then show ?thesis by (simp add: coreCompressV1_def unboundedStream_def)
next
  case False
  then show ?thesis by (simp add: coreCompressV1_compressInto compressInto_exact(1)[OF False])
qed

lemma bufferSize_eq:
  "bufferSize X = (if length X < 1024 then 2 * length X + 128 else length X + 2048)"
  by (simp add: bufferSize_def outputBufferSlack_def)

lemma short_fits:
  assumes "length X < 16384"
  shows "length (unboundedStream X) \<le> bufferSize X"
proof (cases "X = []")
  case True
  then show ?thesis by (simp add: unboundedStream_def)
next
  case False
  from compressInto_exact(3)[OF False] assms show ?thesis
    by (simp add: bufferSize_eq)
qed

lemma unbounded_round_trip:
  assumes "unat n = length X"
  shows "lzssSimpleDecompress (unboundedStream X) n = Inr X"
proof (cases "X = []")
  case True
  with assms show ?thesis by (simp add: unboundedStream_def lzssSimpleDecompress_def unat_eq_0)
next
  case False
  have "compressInto (length (unboundedStream X)) X = Inr (unboundedStream X)"
    by (simp add: compressInto_exact(1)[OF False])
  from compressInto_round_trip[OF this False assms] show ?thesis .
qed

section \<open>When the encoder returns a stream\<close>

text \<open>
  Claim C5, as stated: \<^verbatim>\<open>coreCompressV1\<close> returns a stream and no error for every input.
  It fails for the 16384 bytes of \<open>incompressible 16384\<close>: no run of three bytes
  repeats, so every byte is written as a literal, and the 16384 literals with their 2049
  control bytes need 18433 bytes, one more than the 18432 bytes the buffer is given.
\<close>

theorem capacity_counterexample:
  "coreCompressV1 (incompressible 16384) = Inl errBufferTooSmall"
  by (rule incompressible_overflow)

text \<open>
  Claim C5, amended: \<^verbatim>\<open>coreCompressV1\<close> writes into a buffer of \<open>len + 2048\<close> bytes
  (\<open>2 * len + 128\<close> for an input shorter than 1024 bytes). It returns the compressed
  stream of the input when that stream fits the buffer and \<^verbatim>\<open>errBufferTooSmall\<close> when it
  is longer, and for no other reason: run with any other buffer size, the same code
  returns the same stream when it fits and the same error when it does not. The stream
  has at most \<open>1 + len + len / 8\<close> bytes, so every input shorter than 16384 bytes is
  encoded; so is every constant input, whatever its length.
\<close>

theorem capacity_exact:
  "coreCompressV1 X = (if length (unboundedStream X) \<le> bufferSize X
                       then Inr (unboundedStream X) else Inl errBufferTooSmall) \<and>
   bufferSize X = (if length X < 1024 then 2 * length X + 128 else length X + 2048) \<and>
   (X \<noteq> [] \<longrightarrow>
      coreCompressV1 X = compressInto (bufferSize X) X \<and>
      (\<forall>B. compressInto B X = (if length (unboundedStream X) \<le> B
                               then Inr (unboundedStream X) else Inl errBufferTooSmall))) \<and>
   8 * length (unboundedStream X) \<le> 8 + 9 * length X \<and>
   (length X < 16384 \<longrightarrow> coreCompressV1 X = Inr (unboundedStream X)) \<and>
   coreCompressV1 (replicate n c) = Inr (unboundedStream (replicate n c))"
proof -
  have a: "X \<noteq> [] \<longrightarrow>
      coreCompressV1 X = compressInto (bufferSize X) X \<and>
      (\<forall>B. compressInto B X = (if length (unboundedStream X) \<le> B
                               then Inr (unboundedStream X) else Inl errBufferTooSmall))"
    using compressInto_exact(1) by (auto simp: coreCompressV1_compressInto)
  have b: "8 * length (unboundedStream X) \<le> 8 + 9 * length X"
    using compressInto_exact(3)[of X] by (cases "X = []") (simp_all add: unboundedStream_def)
  have c: "length X < 16384 \<longrightarrow> coreCompressV1 X = Inr (unboundedStream X)"
    using short_fits[of X] by (simp add: coreCompressV1_exact)
  from coreCompressV1_exact[of X] bufferSize_eq[of X] a b c constant_compresses[of n c]
  show ?thesis by blast
qed

theorem capacity_exact_witness:
  "replicate 10 (0x41 :: byte) \<noteq> [] \<and> length (replicate 10 (0x41 :: byte)) < 16384 \<and>
   coreCompressV1 (replicate 10 0x41) = Inr [0x18, 0x41, 0x41, 0x41, 0x20, 0x00, 0x31, 0x00] \<and>
   unboundedStream (replicate 10 0x41) = [0x18, 0x41, 0x41, 0x41, 0x20, 0x00, 0x31, 0x00] \<and>
   compressInto 8 (replicate 10 0x41) = Inr [0x18, 0x41, 0x41, 0x41, 0x20, 0x00, 0x31, 0x00] \<and>
   compressInto 7 (replicate 10 0x41) = Inl errBufferTooSmall \<and>
   bufferSize (replicate 10 0x41) = 148"
proof -
  have h1: "coreCompressV1 (replicate 10 0x41)
              = Inr [0x18, 0x41, 0x41, 0x41, 0x20, 0x00, 0x31, 0x00]"
    by code_simp
  have h2: "replicate 10 (0x41 :: byte) \<noteq> []" "length (replicate 10 (0x41 :: byte)) < 16384"
    by simp_all
  note T = capacity_exact[of "replicate 10 0x41" 0 0]
  from T h1 h2 have u: "unboundedStream (replicate 10 0x41)
     = [0x18, 0x41, 0x41, 0x41, 0x20, 0x00, 0x31, 0x00]" by simp
  from T h2 have "compressInto 8 (replicate 10 0x41) = Inr [0x18, 0x41, 0x41, 0x41, 0x20, 0x00, 0x31, 0x00]"
    "compressInto 7 (replicate 10 0x41) = Inl errBufferTooSmall"
    "bufferSize (replicate 10 0x41) = 148"
    unfolding u by simp_all
  with h1 h2 u show ?thesis by blast
qed

section \<open>The round trip\<close>

text \<open>
  Claim C1, as stated: for every \<open>X\<close>, decoding the stream produced by encoding \<open>X\<close>
  succeeds and returns \<open>X\<close>. For the 16384 bytes of \<open>incompressible 16384\<close> the
  encoder produces no stream but \<^verbatim>\<open>errBufferTooSmall\<close>, so encoding and then decoding does
  not return the input.
\<close>

theorem round_trip_counterexample:
  "(case coreCompressV1 (incompressible 16384) of
      Inl e \<Rightarrow> Inl e
    | Inr s \<Rightarrow> lzssSimpleDecompress s 16384) \<noteq> Inr (incompressible 16384)"
  by (simp add: incompressible_overflow)

text \<open>
  Claim C1, amended: for every \<open>X\<close> with its length as the declared uncompressed size,
  \<^verbatim>\<open>coreCompressV1\<close> either returns the compressed stream of \<open>X\<close>, and decoding that
  stream succeeds and returns exactly \<open>X\<close>, or it returns \<^verbatim>\<open>errBufferTooSmall\<close>, which
  it does only when the stream is longer than its buffer of \<open>len + 2048\<close> bytes
  (\<open>2 * len + 128\<close> below 1024 bytes) and never for an \<open>X\<close> shorter than 16384 bytes.
  The compressed stream of every \<open>X\<close> decodes to \<open>X\<close>, whether the buffer held it or
  not.
\<close>

theorem round_trip_where_encoded:
  assumes "unat uncompressedSize = length X"
  shows "(case coreCompressV1 X of
            Inr s \<Rightarrow> s = unboundedStream X \<and> lzssSimpleDecompress s uncompressedSize = Inr X
          | Inl e \<Rightarrow> e = errBufferTooSmall \<and> bufferSize X < length (unboundedStream X) \<and>
                     16384 \<le> length X) \<and>
         lzssSimpleDecompress (unboundedStream X) uncompressedSize = Inr X \<and>
         (length X < 16384 \<longrightarrow>
            (\<exists>s. coreCompressV1 X = Inr s \<and> lzssSimpleDecompress s uncompressedSize = Inr X)) \<and>
         bufferSize X = (if length X < 1024 then 2 * length X + 128 else length X + 2048)"
proof -
  note rt = unbounded_round_trip[OF assms]
  have a: "case coreCompressV1 X of
            Inr s \<Rightarrow> s = unboundedStream X \<and> lzssSimpleDecompress s uncompressedSize = Inr X
          | Inl e \<Rightarrow> e = errBufferTooSmall \<and> bufferSize X < length (unboundedStream X) \<and>
                     16384 \<le> length X"
  proof (cases "length (unboundedStream X) \<le> bufferSize X")
    case True
    then show ?thesis by (simp add: coreCompressV1_exact rt)
  next
    case False
    with short_fits[of X] have "16384 \<le> length X" by (cases "length X < 16384") auto
    with False show ?thesis by (simp add: coreCompressV1_exact)
  qed
  have b: "length X < 16384 \<longrightarrow>
            (\<exists>s. coreCompressV1 X = Inr s \<and> lzssSimpleDecompress s uncompressedSize = Inr X)"
    using short_fits[of X] rt by (auto simp: coreCompressV1_exact)
  from a rt b bufferSize_eq show ?thesis by blast
qed

theorem round_trip_where_encoded_witness:
  "unat (10 :: uint32) = length (replicate 10 (0x41 :: byte)) \<and>
   coreCompressV1 (replicate 10 0x41) = Inr [0x18, 0x41, 0x41, 0x41, 0x20, 0x00, 0x31, 0x00] \<and>
   unboundedStream (replicate 10 0x41) = [0x18, 0x41, 0x41, 0x41, 0x20, 0x00, 0x31, 0x00] \<and>
   lzssSimpleDecompress [0x18, 0x41, 0x41, 0x41, 0x20, 0x00, 0x31, 0x00] 10
     = Inr (replicate 10 0x41)"
proof -
  have h1: "coreCompressV1 (replicate 10 0x41)
              = Inr [0x18, 0x41, 0x41, 0x41, 0x20, 0x00, 0x31, 0x00]"
    by code_simp
  have h2: "unat (10 :: uint32) = length (replicate 10 (0x41 :: byte))" by simp
  from round_trip_where_encoded[OF h2] h1 h2 show ?thesis by simp
qed

end
